theory Spec2Isabelle
  imports Main
begin

section \<open>Data model of \<open>app/services/llm_service.py\<close>\<close>

text \<open>
  Conversation turns are Python dicts with the keys \<open>role\<close>, \<open>content\<close>,
  \<open>tool_calls\<close> and \<open>tool_call_id\<close>. A key that a dict does not carry is \<open>None\<close>
  here, which is what \<open>dict.get\<close> answers for it.
\<close>

datatype MessageRole = System | User | Assistant | Tool

record turn =
  role :: MessageRole
  content :: "string option"
  tool_calls :: "string option"
  tool_call_id :: "string option"

text \<open>A row of the persisted history (\<open>app.database.models.Message\<close>): \<open>msg.role\<close>, \<open>msg.content\<close>.\<close>

record Message =
  msg_role :: MessageRole
  msg_content :: "string option"

text \<open>
  \<open>ChatCompletionMessageToolCall\<close>: \<open>tool_call.id\<close>, \<open>tool_call.function.name\<close> and
  \<open>tool_call.function.arguments\<close> (the raw JSON text of the arguments).
\<close>

record ChatCompletionMessageToolCall =
  call_id :: string
  function_name :: string
  function_arguments :: string

text \<open>
  \<open>ChatCompletionMessage\<close>: \<open>.content\<close> and \<open>.tool_calls\<close>. The code only tests
  \<open>tool_calls\<close> for truthiness, so \<open>None\<close> and the empty list are one value here.
\<close>

record ChatCompletionMessage =
  cm_content :: "string option"
  cm_tool_calls :: "ChatCompletionMessageToolCall list"

text \<open>Exceptions of class \<open>Exception\<close>, as values.\<close>

datatype exn = JSONDecodeError | TypeError | IndexError | OtherError string

text \<open>
  The exceptions that are not of class \<open>Exception\<close>, which no \<open>except Exception\<close> clause
  catches. \<open>asyncio\<close> raises \<open>CancelledError\<close> at the await of a call that is cancelled.
\<close>

datatype base_exn = CancelledError | KeyboardInterrupt | SystemExit

text \<open>What can leave a call by \<open>raise\<close>: an exception of either kind.\<close>

datatype raised = Exception exn | BaseException base_exn

text \<open>
  The collaborators the module imports and calls synchronously: \<open>get_system_prompt\<close>,
  \<open>json.loads\<close>, the table \<open>tools_functions\<close> (a dict from names to callables),
  \<open>json.dumps\<close> on a tool's result, and \<open>json.dumps\<close> on the list of dicts
  \<open>{function_name, arguments, tool_call_id}\<close> (triples here, in that order). \<open>'j\<close> is the type
  of parsed arguments, \<open>'r\<close> the type of tool results; \<open>Inl\<close> is a raised exception, of
  class \<open>Exception\<close> for these synchronous collaborators.
\<close>

record ('j, 'r) env =
  get_system_prompt :: "string \<Rightarrow> string"
  json_loads :: "string \<Rightarrow> exn + 'j"
  tools_functions :: "string \<rightharpoonup> ('j \<Rightarrow> exn + 'r)"
  json_dumps :: "'r \<Rightarrow> exn + string"
  json_dumps_calls :: "(string \<times> string \<times> string) list \<Rightarrow> string"

subsection \<open>Python list slices and \<open>str.join\<close>\<close>

text \<open>\<open>xs[:-n]\<close> for \<open>n \<ge> 0\<close>: since \<open>-0 = 0\<close>, \<open>xs[:-0]\<close> is \<open>xs[:0] = []\<close>.\<close>

definition slice_upto_neg :: "'a list \<Rightarrow> nat \<Rightarrow> 'a list" where
  "slice_upto_neg xs n = (if n = 0 then [] else take (length xs - n) xs)"

text \<open>\<open>xs[-n:]\<close> for \<open>n \<ge> 0\<close>: \<open>xs[-0:]\<close> is \<open>xs[0:] = xs\<close>; a larger \<open>n\<close> than the length gives all of \<open>xs\<close>.\<close>

definition slice_from_neg :: "'a list \<Rightarrow> nat \<Rightarrow> 'a list" where
  "slice_from_neg xs n = (if n = 0 then xs else drop (length xs - n) xs)"

text \<open>\<open>sep.join(xs)\<close>.\<close>

fun str_join :: "string \<Rightarrow> string list \<Rightarrow> string" where
  "str_join sep [] = []"
| "str_join sep [x] = x"
| "str_join sep (x # y # ys) = x @ sep @ str_join sep (y # ys)"

definition newline :: string where
  "newline = [CHR 0x0A]"

section \<open>\<open>LLMClient._process_tool_calls\<close> (lines 91--131)\<close>

text \<open>The dict appended at lines 105--110: the assistant turn echoing the raw requests.\<close>

definition tool_calls_serializable ::
  "ChatCompletionMessageToolCall list \<Rightarrow> (string \<times> string \<times> string) list" where
  "tool_calls_serializable tcs =
     map (\<lambda>tc. (function_name tc, function_arguments tc, call_id tc)) tcs"

definition echo_turn :: "('j, 'r) env \<Rightarrow> ChatCompletionMessageToolCall list \<Rightarrow> turn" where
  "echo_turn env tcs =
     \<lparr>role = Assistant, content = None,
      tool_calls = Some (json_dumps_calls env (tool_calls_serializable tcs)),
      tool_call_id = None\<rparr>"

definition tool_turn :: "string \<Rightarrow> string \<Rightarrow> turn" where
  "tool_turn c i = \<lparr>role = Tool, content = Some c, tool_calls = None, tool_call_id = Some i\<rparr>"

text \<open>
  The body of the \<open>try\<close> of one iteration (lines 114--126): the arguments are parsed first,
  then the name is looked up. \<open>Inl e\<close>: the body raised \<open>e\<close>; \<open>Inr None\<close>: it ended without
  appending (the name is not in the table); \<open>Inr (Some t)\<close>: it appended \<open>t\<close>.
\<close>

definition tool_call_body ::
  "('j, 'r) env \<Rightarrow> ChatCompletionMessageToolCall \<Rightarrow> exn + turn option" where
  "tool_call_body env tc =
     (case json_loads env (function_arguments tc) of
        Inl e \<Rightarrow> Inl e
      | Inr function_args \<Rightarrow>
          (case tools_functions env (function_name tc) of
             None \<Rightarrow> Inr None
           | Some f \<Rightarrow>
               (case f function_args of
                  Inl e \<Rightarrow> Inl e
                | Inr result \<Rightarrow>
                    (case json_dumps env result of
                       Inl e \<Rightarrow> Inl e
                     | Inr c \<Rightarrow> Inr (Some (tool_turn c (call_id tc)))))))"

text \<open>
  The \<open>for\<close> loop (lines 112--129) on the value of \<open>updated_messages\<close>: the \<open>except\<close>
  clause logs and goes on with the next request.
\<close>

fun tool_loop ::
  "('j, 'r) env \<Rightarrow> ChatCompletionMessageToolCall list \<Rightarrow> turn list \<Rightarrow> turn list" where
  "tool_loop env [] updated_messages = updated_messages"
| "tool_loop env (tc # tcs) updated_messages =
     tool_loop env tcs
       (case tool_call_body env tc of
          Inl e \<Rightarrow> updated_messages
        | Inr None \<Rightarrow> updated_messages
        | Inr (Some t) \<Rightarrow> updated_messages @ [t])"

definition process_tool_calls ::
  "('j, 'r) env \<Rightarrow> turn list \<Rightarrow> ChatCompletionMessageToolCall list \<Rightarrow> turn list" where
  "process_tool_calls env msgs tcs = tool_loop env tcs (msgs @ [echo_turn env tcs])"

subsection \<open>The same function on a store of list objects\<close>

text \<open>
  Python lists are mutable objects. Here a store holds the list objects, a reference is an
  index into it, \<open>list.copy\<close> allocates and \<open>list.append\<close> updates in place.
\<close>

type_synonym list_store = "turn list list"

definition list_copy :: "list_store \<Rightarrow> nat \<Rightarrow> list_store \<times> nat" where
  "list_copy st r = (st @ [st ! r], length st)"

definition list_append :: "list_store \<Rightarrow> nat \<Rightarrow> turn \<Rightarrow> list_store" where
  "list_append st r x = st[r := st ! r @ [x]]"

fun tool_loop_st ::
  "('j, 'r) env \<Rightarrow> ChatCompletionMessageToolCall list \<Rightarrow> list_store \<Rightarrow> nat \<Rightarrow> list_store" where
  "tool_loop_st env [] st updated_messages = st"
| "tool_loop_st env (tc # tcs) st updated_messages =
     tool_loop_st env tcs
       (case tool_call_body env tc of
          Inl e \<Rightarrow> st
        | Inr None \<Rightarrow> st
        | Inr (Some t) \<Rightarrow> list_append st updated_messages t)
       updated_messages"

definition process_tool_calls_st ::
  "('j, 'r) env \<Rightarrow> list_store \<Rightarrow> nat \<Rightarrow> ChatCompletionMessageToolCall list \<Rightarrow> list_store \<times> nat" where
  "process_tool_calls_st env st msgs tcs =
     (case list_copy st msgs of
        (st1, updated_messages) \<Rightarrow>
          (tool_loop_st env tcs (list_append st1 updated_messages (echo_turn env tcs))
             updated_messages,
           updated_messages))"

subsection \<open>What section 4.4 of the specification asks of one request\<close>

text \<open>
  In the specification's order: look the name up, then parse, invoke and serialize; any
  failure gives no result.
\<close>

definition resolved :: "('j, 'r) env \<Rightarrow> ChatCompletionMessageToolCall \<Rightarrow> string option" where
  "resolved env tc =
     (case tools_functions env (function_name tc) of
        None \<Rightarrow> None
      | Some f \<Rightarrow>
          (case json_loads env (function_arguments tc) of
             Inl e \<Rightarrow> None
           | Inr args \<Rightarrow>
               (case f args of
                  Inl e \<Rightarrow> None
                | Inr result \<Rightarrow>
                    (case json_dumps env result of Inl e \<Rightarrow> None | Inr c \<Rightarrow> Some c))))"

definition result_turns :: "('j, 'r) env \<Rightarrow> ChatCompletionMessageToolCall \<Rightarrow> turn list" where
  "result_turns env tc =
     (case resolved env tc of None \<Rightarrow> [] | Some c \<Rightarrow> [tool_turn c (call_id tc)])"

section \<open>\<open>MessageProcessor\<close> (lines 19--42)\<close>

text \<open>\<open>lock\<close> is the \<open>asyncio.Lock\<close>: \<open>True\<close> while it is held.\<close>

record MessageProcessor =
  user_id :: int
  lock :: bool
  messages :: "string list"

definition MessageProcessor_init :: "int \<Rightarrow> MessageProcessor" where
  "MessageProcessor_init uid = \<lparr>user_id = uid, lock = False, messages = []\<rparr>"

definition add_message :: "MessageProcessor \<Rightarrow> string \<Rightarrow> MessageProcessor" where
  "add_message p message = p\<lparr>messages := messages p @ [message]\<rparr>"

definition get_pending_messages :: "MessageProcessor \<Rightarrow> string list" where
  "get_pending_messages p = messages p"

definition clear_messages :: "MessageProcessor \<Rightarrow> MessageProcessor" where
  "clear_messages p = p\<lparr>messages := []\<rparr>"

definition has_messages :: "MessageProcessor \<Rightarrow> bool" where
  "has_messages p = (messages p \<noteq> [])"

definition is_locked :: "MessageProcessor \<Rightarrow> bool" where
  "is_locked p = lock p"

section \<open>\<open>LLMClient\<close>: the registry (lines 45--72)\<close>

text \<open>
  \<open>self._processors\<close> maps a user id to a \<open>MessageProcessor\<close> object, and a running
  call keeps its own reference to the object it got. So the objects live in \<open>heap\<close>, a
  reference is an index into it, and \<open>processors\<close> holds references. Nothing is ever
  removed from \<open>heap\<close>: an object that the registry has dropped stays reachable for the
  calls that still hold it.
\<close>

record LLMClient =
  processors :: "int \<rightharpoonup> nat"
  heap :: "MessageProcessor list"

definition LLMClient_init :: LLMClient where
  "LLMClient_init = \<lparr>processors = Map.empty, heap = []\<rparr>"

definition update_processor ::
  "LLMClient \<Rightarrow> nat \<Rightarrow> (MessageProcessor \<Rightarrow> MessageProcessor) \<Rightarrow> LLMClient" where
  "update_processor c a f = c\<lparr>heap := (heap c)[a := f (heap c ! a)]\<rparr>"

definition get_processor :: "LLMClient \<Rightarrow> int \<Rightarrow> LLMClient \<times> nat" where
  "get_processor c uid =
     (case processors c uid of
        None \<Rightarrow>
          (c\<lparr>processors := (processors c)(uid \<mapsto> length (heap c)),
             heap := heap c @ [MessageProcessor_init uid]\<rparr>,
           length (heap c))
      | Some a \<Rightarrow> (c, a))"

definition cleanup_processor :: "LLMClient \<Rightarrow> int \<Rightarrow> LLMClient" where
  "cleanup_processor c uid =
     (case processors c uid of
        None \<Rightarrow> c
      | Some a \<Rightarrow>
          if \<not> has_messages (heap c ! a) \<and> \<not> is_locked (heap c ! a)
          then c\<lparr>processors := (processors c)(uid := None)\<rparr>
          else c)"

definition check_new_messages :: "MessageProcessor \<Rightarrow> nat \<Rightarrow> bool" where
  "check_new_messages p original_count = (length (messages p) > original_count)"

section \<open>\<open>_format_conversation_history\<close> and the prompt (lines 163--171, 260--277)\<close>

definition plain_turn :: "MessageRole \<Rightarrow> string option \<Rightarrow> turn" where
  "plain_turn r c = \<lparr>role = r, content = c, tool_calls = None, tool_call_id = None\<rparr>"

text \<open>\<open>if messages:\<close> skips the loop for \<open>None\<close> and for the empty list.\<close>

definition format_conversation_history ::
  "('j, 'r) env \<Rightarrow> Message list option \<Rightarrow> turn list" where
  "format_conversation_history env message_history =
     [plain_turn System (Some (get_system_prompt env ''default_system''))]
     @ (case message_history of
          None \<Rightarrow> []
        | Some ms \<Rightarrow> map (\<lambda>msg. plain_turn (msg_role msg) (msg_content msg)) ms)"

text \<open>Lines 163--171: \<open>[*formatted_messages[:-len(messages_to_process)], {user turn}]\<close>.\<close>

definition api_messages ::
  "('j, 'r) env \<Rightarrow> Message list option \<Rightarrow> string list \<Rightarrow> turn list" where
  "api_messages env message_history messages_to_process =
     slice_upto_neg (format_conversation_history env message_history)
       (length messages_to_process)
     @ [plain_turn User (Some (str_join newline messages_to_process))]"

text \<open>
  Lines 218--238: the last \<open>len(tool_calls) + 1\<close> turns of \<open>updated_messages\<close>, the first of
  them read through \<open>tool_calls\<close> and the others through \<open>content\<close>, then the final turn.
\<close>

definition response_messages ::
  "ChatCompletionMessageToolCall list \<Rightarrow> turn list \<Rightarrow> ChatCompletionMessage \<Rightarrow> turn list" where
  "response_messages tcs updated_messages final_response =
     map (\<lambda>(i, msg). plain_turn (role msg) (if i = 0 then tool_calls msg else content msg))
       (enumerate 0 (slice_from_neg updated_messages (length tcs + 1)))
     @ [plain_turn Assistant (cm_content final_response)]"

section \<open>\<open>_generate_completion\<close> (lines 75--89)\<close>

text \<open>
  What an awaited call comes back with: it raises, or it yields a value. The provider
  yields the list of the messages of \<open>response.choices\<close>.
\<close>

datatype 'a awaited = Raises exn | Yields 'a

text \<open>The \<open>try\<close> body after the await: \<open>response.choices[0].message\<close>.\<close>

definition generate_completion_body ::
  "ChatCompletionMessage list awaited \<Rightarrow> exn + ChatCompletionMessage" where
  "generate_completion_body r =
     (case r of
        Raises e \<Rightarrow> Inl e
      | Yields choices \<Rightarrow> (case choices of [] \<Rightarrow> Inl IndexError | m # _ \<Rightarrow> Inr m))"

definition generate_completion ::
  "ChatCompletionMessage list awaited \<Rightarrow> ChatCompletionMessage option" where
  "generate_completion r =
     (case generate_completion_body r of Inl e \<Rightarrow> None | Inr m \<Rightarrow> Some m)"

section \<open>\<open>generate_response\<close> (lines 133--258)\<close>

text \<open>
  The coroutine suspends at three places: the history fetch (line 162) and the provider
  call inside \<open>_generate_completion\<close>, in phase 1 (line 174) and in phase 2 (line 199).
  Acquiring a free \<open>asyncio.Lock\<close>, \<open>_check_new_messages\<close> and \<open>_process_tool_calls\<close>
  do not suspend. Between two suspensions the code runs without interleaving, so a call is
  modelled by what it does from its start to its first suspension and from each suspension
  to the next. A suspended call is its live variables: \<open>user.id\<close>, the reference
  \<open>processor\<close>, \<open>messages_to_process\<close>, and from phase 1 on the turn list that was sent to
  the provider (\<open>api_messages\<close>, then \<open>updated_messages\<close> with the phase-1 tool calls).
  A finished call has returned a value or has raised an exception to its caller.
\<close>

datatype task =
    AwaitHistory int nat "string list"
  | AwaitPhase1 int nat "string list" "turn list"
  | AwaitPhase2 int nat "string list" "ChatCompletionMessageToolCall list" "turn list"
  | Returned "turn list option"
  | Raised raised

definition acquire_lock :: "LLMClient \<Rightarrow> nat \<Rightarrow> LLMClient" where
  "acquire_lock c a = update_processor c a (\<lambda>p. p\<lparr>lock := True\<rparr>)"

text \<open>Leaving \<open>async with processor.lock\<close>, by \<open>return\<close> here, releases the lock.\<close>

definition release_lock :: "LLMClient \<Rightarrow> nat \<Rightarrow> LLMClient" where
  "release_lock c a = update_processor c a (\<lambda>p. p\<lparr>lock := False\<rparr>)"

text \<open>
  \<open>processor.clear_messages(); self._cleanup_processor(user.id); return r\<close>
  (lines 157--159, 249--252 and 256--258): the lock is released after the cleanup.
\<close>

definition clear_cleanup_return ::
  "LLMClient \<Rightarrow> int \<Rightarrow> nat \<Rightarrow> turn list option \<Rightarrow> LLMClient \<times> task" where
  "clear_cleanup_return c uid a r =
     (let c1 = update_processor c a clear_messages;
          c2 = cleanup_processor c1 uid
      in (release_lock c2 a, Returned r))"

text \<open>\<open>return None\<close> at lines 179 and 206: nothing is cleared, nothing is cleaned up.\<close>

definition bare_return :: "LLMClient \<Rightarrow> nat \<Rightarrow> LLMClient \<times> task" where
  "bare_return c a = (release_lock c a, Returned None)"

text \<open>The head of the \<open>while True\<close> loop, lines 153--162, up to the history fetch.\<close>

definition loop_top :: "LLMClient \<Rightarrow> int \<Rightarrow> nat \<Rightarrow> LLMClient \<times> task" where
  "loop_top c uid a =
     (let messages_to_process = get_pending_messages (heap c ! a)
      in if messages_to_process = [] then clear_cleanup_return c uid a None
         else (c, AwaitHistory uid a messages_to_process))"

text \<open>Lines 139--150: the start of a call \<open>generate_response(user, message)\<close>.\<close>

definition generate_response :: "LLMClient \<Rightarrow> int \<Rightarrow> string \<Rightarrow> LLMClient \<times> task" where
  "generate_response c uid message =
     (case get_processor c uid of
        (c1, a) \<Rightarrow>
          (let c2 = update_processor c1 a (\<lambda>p. add_message p message)
           in if is_locked (heap c2 ! a) then (c2, Returned None)
              else loop_top (acquire_lock c2 a) uid a))"

text \<open>
  Lines 162--176, the \<open>try\<close> body from the history fetch to the phase-1 call; \<open>Inl e\<close> is
  an exception on its way to the \<open>except\<close> clause of lines 254--258.
\<close>

definition history_body ::
  "('j, 'r) env \<Rightarrow> int \<Rightarrow> nat \<Rightarrow> string list \<Rightarrow> Message list option awaited \<Rightarrow> exn + task" where
  "history_body env uid a messages_to_process r =
     (case r of
        Raises e \<Rightarrow> Inl e
      | Yields message_history \<Rightarrow>
          Inr (AwaitPhase1 uid a messages_to_process
                 (api_messages env message_history messages_to_process)))"

definition history_returns ::
  "('j, 'r) env \<Rightarrow> LLMClient \<Rightarrow> int \<Rightarrow> nat \<Rightarrow> string list \<Rightarrow> Message list option awaited
     \<Rightarrow> LLMClient \<times> task" where
  "history_returns env c uid a messages_to_process r =
     (case history_body env uid a messages_to_process r of
        Inl e \<Rightarrow> clear_cleanup_return c uid a None
      | Inr t \<Rightarrow> (c, t))"

text \<open>Lines 174--202 and 239--252: from the phase-1 result on.\<close>

definition phase1_returns ::
  "('j, 'r) env \<Rightarrow> LLMClient \<Rightarrow> int \<Rightarrow> nat \<Rightarrow> string list \<Rightarrow> turn list
     \<Rightarrow> ChatCompletionMessage list awaited \<Rightarrow> LLMClient \<times> task" where
  "phase1_returns env c uid a messages_to_process api r =
     (case generate_completion r of
        None \<Rightarrow> bare_return c a
      | Some initial_response \<Rightarrow>
          if check_new_messages (heap c ! a) (length messages_to_process)
          then loop_top c uid a
          else if cm_tool_calls initial_response \<noteq> []
          then (c, AwaitPhase2 uid a messages_to_process (cm_tool_calls initial_response)
                     (process_tool_calls env api (cm_tool_calls initial_response)))
          else clear_cleanup_return c uid a
                 (Some [plain_turn Assistant (cm_content initial_response)]))"

text \<open>Lines 199--238 and 247--252: from the phase-2 result on.\<close>

definition phase2_returns ::
  "LLMClient \<Rightarrow> int \<Rightarrow> nat \<Rightarrow> string list \<Rightarrow> ChatCompletionMessageToolCall list \<Rightarrow> turn list
     \<Rightarrow> ChatCompletionMessage list awaited \<Rightarrow> LLMClient \<times> task" where
  "phase2_returns c uid a messages_to_process tcs updated_messages r =
     (case generate_completion r of
        None \<Rightarrow> bare_return c a
      | Some final_response \<Rightarrow>
          if check_new_messages (heap c ! a) (length messages_to_process)
          then loop_top c uid a
          else clear_cleanup_return c uid a
                 (Some (response_messages tcs updated_messages final_response)))"

text \<open>
  What the two awaited collaborators answer when a suspended call is resumed; the call
  reads the answer of the one it waits for.
\<close>

record answer =
  history_answer :: "Message list option awaited"
  completion_answer :: "ChatCompletionMessage list awaited"

fun resume :: "('j, 'r) env \<Rightarrow> LLMClient \<Rightarrow> task \<Rightarrow> answer \<Rightarrow> LLMClient \<times> task" where
  "resume env c (AwaitHistory uid a B) ans = history_returns env c uid a B (history_answer ans)"
| "resume env c (AwaitPhase1 uid a B api) ans =
     phase1_returns env c uid a B api (completion_answer ans)"
| "resume env c (AwaitPhase2 uid a B tcs upd) ans =
     phase2_returns c uid a B tcs upd (completion_answer ans)"
| "resume env c (Returned r) ans = (c, Returned r)"
| "resume env c (Raised e) ans = (c, Raised e)"

text \<open>
  A suspended call can also be woken by an exception that is not of class \<open>Exception\<close>,
  raised at its await (the history fetch, or the provider call inside
  \<open>_generate_completion\<close>). The \<open>except Exception\<close> clauses of lines 87 and 254 do not catch
  it: nothing is cleared, nothing is cleaned up, \<open>async with\<close> releases the lock on the way
  out, and the exception reaches the caller.
\<close>

definition propagate :: "LLMClient \<Rightarrow> nat \<Rightarrow> base_exn \<Rightarrow> LLMClient \<times> task" where
  "propagate c a b = (release_lock c a, Raised (BaseException b))"

fun throw_in :: "LLMClient \<Rightarrow> task \<Rightarrow> base_exn \<Rightarrow> LLMClient \<times> task" where
  "throw_in c (AwaitHistory uid a B) b = propagate c a b"
| "throw_in c (AwaitPhase1 uid a B api) b = propagate c a b"
| "throw_in c (AwaitPhase2 uid a B tcs upd) b = propagate c a b"
| "throw_in c (Returned r) b = (c, Returned r)"
| "throw_in c (Raised e) b = (c, Raised e)"

text \<open>A call is active from the acquisition of the lock to its return.\<close>

fun active :: "task \<Rightarrow> bool" where
  "active (AwaitHistory uid a B) = True"
| "active (AwaitPhase1 uid a B api) = True"
| "active (AwaitPhase2 uid a B tcs upd) = True"
| "active (Returned r) = False"
| "active (Raised e) = False"

fun task_user :: "task \<Rightarrow> int option" where
  "task_user (AwaitHistory uid a B) = Some uid"
| "task_user (AwaitPhase1 uid a B api) = Some uid"
| "task_user (AwaitPhase2 uid a B tcs upd) = Some uid"
| "task_user (Returned r) = None"
| "task_user (Raised e) = None"

fun task_processor :: "task \<Rightarrow> nat option" where
  "task_processor (AwaitHistory uid a B) = Some a"
| "task_processor (AwaitPhase1 uid a B api) = Some a"
| "task_processor (AwaitPhase2 uid a B tcs upd) = Some a"
| "task_processor (Returned r) = None"
| "task_processor (Raised e) = None"

fun snapshot :: "task \<Rightarrow> string list" where
  "snapshot (AwaitHistory uid a B) = B"
| "snapshot (AwaitPhase1 uid a B api) = B"
| "snapshot (AwaitPhase2 uid a B tcs upd) = B"
| "snapshot (Returned r) = []"
| "snapshot (Raised e) = []"

text \<open>One call run alone: resumed with one answer after the other until it has finished.\<close>

fun drive :: "('j, 'r) env \<Rightarrow> LLMClient \<times> task \<Rightarrow> answer list \<Rightarrow> LLMClient \<times> task" where
  "drive env (c, t) [] = (c, t)"
| "drive env (c, t) (ans # rest) = drive env (resume env c t ans) rest"

text \<open>The same with both kinds of wake-up: an answer, or an exception outside \<open>Exception\<close>.\<close>

datatype event = Answer answer | Throw base_exn

fun deliver :: "('j, 'r) env \<Rightarrow> LLMClient \<Rightarrow> task \<Rightarrow> event \<Rightarrow> LLMClient \<times> task" where
  "deliver env c t (Answer ans) = resume env c t ans"
| "deliver env c t (Throw b) = throw_in c t b"

fun play :: "('j, 'r) env \<Rightarrow> LLMClient \<times> task \<Rightarrow> event list \<Rightarrow> LLMClient \<times> task" where
  "play env (c, t) [] = (c, t)"
| "play env (c, t) (ev # rest) = play env (deliver env c t ev) rest"

section \<open>Interleaved calls on one event loop\<close>

text \<open>
  The state of the program: the client and every call made so far, in the order of the
  calls. A step is a new call running to its first suspension, an active call resumed
  with an answer and running to its next suspension or to its return, or an active call
  left by an exception outside \<open>Exception\<close> raised at its await.
\<close>

record system =
  client :: LLMClient
  tasks :: "task list"

definition system_init :: system where
  "system_init = \<lparr>client = LLMClient_init, tasks = []\<rparr>"

definition do_call :: "system \<Rightarrow> int \<Rightarrow> string \<Rightarrow> system" where
  "do_call s uid message =
     (case generate_response (client s) uid message of
        (c, t) \<Rightarrow> \<lparr>client = c, tasks = tasks s @ [t]\<rparr>)"

definition do_resume :: "('j, 'r) env \<Rightarrow> system \<Rightarrow> nat \<Rightarrow> answer \<Rightarrow> system" where
  "do_resume env s i ans =
     (case resume env (client s) (tasks s ! i) ans of
        (c, t) \<Rightarrow> \<lparr>client = c, tasks = (tasks s)[i := t]\<rparr>)"

definition do_throw :: "system \<Rightarrow> nat \<Rightarrow> base_exn \<Rightarrow> system" where
  "do_throw s i b =
     (case throw_in (client s) (tasks s ! i) b of
        (c, t) \<Rightarrow> \<lparr>client = c, tasks = (tasks s)[i := t]\<rparr>)"

inductive reachable :: "('j, 'r) env \<Rightarrow> system \<Rightarrow> bool" for env :: "('j, 'r) env" where
  start: "reachable env system_init"
| call: "reachable env s \<Longrightarrow> reachable env (do_call s uid message)"
| resumed: "reachable env s \<Longrightarrow> i < length (tasks s) \<Longrightarrow> active (tasks s ! i)
     \<Longrightarrow> reachable env (do_resume env s i ans)"
| thrown: "reachable env s \<Longrightarrow> i < length (tasks s) \<Longrightarrow> active (tasks s ! i)
     \<Longrightarrow> reachable env (do_throw s i b)"

section \<open>Concrete collaborators and answers, for the instances\<close>

text \<open>
  A table with the one tool \<open>search\<close>, which raises on the argument \<open>boom\<close>; a parser that
  rejects the text \<open>{\<close>; serializers that never raise.
\<close>

definition example_env :: "(string, string) env" where
  "example_env =
     \<lparr>get_system_prompt = (\<lambda>name. ''be kind''),
      json_loads = (\<lambda>s. if s = ''{'' then Inl JSONDecodeError else Inr s),
      tools_functions =
        [''search'' \<mapsto> (\<lambda>a. if a = ''boom'' then Inl (OtherError ''boom'') else Inr a)],
      json_dumps = (\<lambda>r. Inr r),
      json_dumps_calls = (\<lambda>cs. concat (map (\<lambda>(n, a, i). n @ a @ i) cs))\<rparr>"

text \<open>Scenario B of the specification: one registered name, one unknown name.\<close>

definition scenario_b_calls :: "ChatCompletionMessageToolCall list" where
  "scenario_b_calls =
     [\<lparr>call_id = ''c1'', function_name = ''search'', function_arguments = ''q''\<rparr>,
      \<lparr>call_id = ''c2'', function_name = ''nope'', function_arguments = ''x''\<rparr>]"

definition history_hi :: answer where
  "history_hi =
     \<lparr>history_answer = Yields (Some [\<lparr>msg_role = User, msg_content = Some ''hi''\<rparr>]),
      completion_answer = Raises (OtherError ''not awaited'')\<rparr>"

definition completion_of :: "ChatCompletionMessage list awaited \<Rightarrow> answer" where
  "completion_of r =
     \<lparr>history_answer = Raises (OtherError ''not awaited''), completion_answer = r\<rparr>"

text \<open>The history store raises an \<open>Exception\<close>; the provider raises one.\<close>

definition history_fails :: answer where
  "history_fails =
     \<lparr>history_answer = Raises (OtherError ''database down''),
      completion_answer = Raises (OtherError ''not awaited'')\<rparr>"

definition provider_fails :: answer where
  "provider_fails = completion_of (Raises (OtherError ''provider down''))"

text \<open>The provider asks for the tool \<open>search\<close> on the argument it raises on.\<close>

definition asks_boom :: answer where
  "asks_boom =
     completion_of (Yields [\<lparr>cm_content = None,
       cm_tool_calls =
         [\<lparr>call_id = ''c1'', function_name = ''search'', function_arguments = ''boom''\<rparr>]\<rparr>])"

section \<open>Invariants of the interleaved system\<close>

text \<open>
  An active call of user \<open>uid\<close> with the reference \<open>a\<close> and the snapshot \<open>B\<close>: the registry
  still maps \<open>uid\<close> to \<open>a\<close>, the lock of \<open>a\<close> is held, and \<open>B\<close> is a non-empty prefix of the
  pending buffer.
\<close>

definition holding :: "LLMClient \<Rightarrow> int \<Rightarrow> nat \<Rightarrow> string list \<Rightarrow> bool" where
  "holding c uid a B =
     (processors c uid = Some a \<and> a < length (heap c) \<and> lock (heap c ! a)
      \<and> B \<noteq> [] \<and> take (length B) (messages (heap c ! a)) = B)"

fun holds :: "LLMClient \<Rightarrow> task \<Rightarrow> bool" where
  "holds c (AwaitHistory uid a B) = holding c uid a B"
| "holds c (AwaitPhase1 uid a B api) = holding c uid a B"
| "holds c (AwaitPhase2 uid a B tcs upd) = holding c uid a B"
| "holds c (Returned r) = True"
| "holds c (Raised e) = True"

text \<open>The turn list a suspended call has sent was built from its snapshot.\<close>

fun prompt_ok :: "('j, 'r) env \<Rightarrow> task \<Rightarrow> bool" where
  "prompt_ok env (AwaitPhase1 uid a B api) = (\<exists>H. api = api_messages env H B)"
| "prompt_ok env (AwaitPhase2 uid a B tcs upd) =
     (tcs \<noteq> [] \<and> (\<exists>H. upd = process_tool_calls env (api_messages env H B) tcs))"
| "prompt_ok env t = True"

text \<open>The client after the holder of \<open>a\<close> has returned and left the buffer \<open>ms\<close>.\<close>

definition released :: "LLMClient \<Rightarrow> nat \<Rightarrow> string list \<Rightarrow> LLMClient" where
  "released c a ms = c\<lparr>heap := (heap c)[a := (heap c ! a)\<lparr>messages := ms, lock := False\<rparr>]\<rparr>"

text \<open>
  The two outcomes of waking a lock holder: it stays active, or it has finished and the
  lock is free.
\<close>

definition stays :: "('j, 'r) env \<Rightarrow> LLMClient \<Rightarrow> task \<Rightarrow> task \<Rightarrow> bool" where
  "stays env c t t' =
     (active t' \<and> holds c t' \<and> prompt_ok env t'
      \<and> task_user t' = task_user t \<and> task_processor t' = task_processor t)"

definition leaves :: "LLMClient \<Rightarrow> nat \<Rightarrow> LLMClient \<Rightarrow> task \<Rightarrow> bool" where
  "leaves c a c' t' = (\<not> active t' \<and> (\<exists>ms. c' = released c a ms))"

definition registry_ok :: "LLMClient \<Rightarrow> bool" where
  "registry_ok c =
     (\<forall>uid a. processors c uid = Some a \<longrightarrow> a < length (heap c) \<and> user_id (heap c ! a) = uid)"

definition one_holder :: "task list \<Rightarrow> bool" where
  "one_holder ts =
     (\<forall>i j. i < length ts \<and> j < length ts \<and> active (ts ! i) \<and> active (ts ! j)
            \<and> task_processor (ts ! i) = task_processor (ts ! j) \<longrightarrow> i = j)"

definition lock_has_holder :: "LLMClient \<Rightarrow> task list \<Rightarrow> bool" where
  "lock_has_holder c ts =
     (\<forall>a. a < length (heap c) \<and> lock (heap c ! a)
          \<longrightarrow> (\<exists>i. i < length ts \<and> task_processor (ts ! i) = Some a))"

definition inv :: "('j, 'r) env \<Rightarrow> system \<Rightarrow> bool" where
  "inv env s =
     (registry_ok (client s)
      \<and> (\<forall>i. i < length (tasks s)
            \<longrightarrow> holds (client s) (tasks s ! i) \<and> prompt_ok env (tasks s ! i))
      \<and> one_holder (tasks s)
      \<and> lock_has_holder (client s) (tasks s))"

section \<open>Executions as lists of events\<close>

text \<open>
  An execution from the initial state is the list of its events: a call
  \<open>generate_response(user, message)\<close>, the resumption of the \<open>i\<close>-th call with an answer,
  or an exception outside \<open>Exception\<close> raised at the await of the \<open>i\<close>-th call (both
  without effect when that call is not suspended).
\<close>

datatype label = Call int string | Resume nat answer | Cancel nat base_exn

fun apply_label :: "('j, 'r) env \<Rightarrow> system \<Rightarrow> label \<Rightarrow> system" where
  "apply_label env s (Call uid message) = do_call s uid message"
| "apply_label env s (Resume i ans) =
     (if i < length (tasks s) \<and> active (tasks s ! i) then do_resume env s i ans else s)"
| "apply_label env s (Cancel i b) =
     (if i < length (tasks s) \<and> active (tasks s ! i) then do_throw s i b else s)"

definition run :: "('j, 'r) env \<Rightarrow> label list \<Rightarrow> system" where
  "run env ls = foldl (apply_label env) system_init ls"






text \<open>
  A bound on the answers a call run alone still needs before it returns: a call whose
  snapshot is the whole buffer goes straight on, a call behind the buffer restarts once.
\<close>

fun rank :: "LLMClient \<Rightarrow> task \<Rightarrow> nat" where
  "rank c (AwaitHistory uid a B) = (if check_new_messages (heap c ! a) (length B) then 5 else 3)"
| "rank c (AwaitPhase1 uid a B api) = (if check_new_messages (heap c ! a) (length B) then 4 else 2)"
| "rank c (AwaitPhase2 uid a B tcs upd) =
     (if check_new_messages (heap c ! a) (length B) then 4 else 1)"
| "rank c (Returned r) = 0"
| "rank c (Raised e) = 0"


text \<open>
  Scenario A of the specification: \<open>hi\<close> starts a generation, \<open>how are you\<close> arrives while
  phase 1 is awaited, the phase-1 result comes back, and the restarted attempt fetches the
  history again.
\<close>

definition history_both :: answer where
  "history_both =
     \<lparr>history_answer = Yields (Some [\<lparr>msg_role = User, msg_content = Some ''hi''\<rparr>,
         \<lparr>msg_role = User, msg_content = Some ''how are you''\<rparr>]),
      completion_answer = Raises (OtherError ''not awaited'')\<rparr>"

definition says_hello :: answer where
  "says_hello = completion_of (Yields [\<lparr>cm_content = Some ''hello'', cm_tool_calls = []\<rparr>])"



text \<open>Two users at once, and a second message of the first.\<close>

definition two_users :: "label list" where
  "two_users = [Call 7 ''hi'', Call 8 ''yo'', Call 7 ''again'']"

section \<open>Lists\<close>

lemma take_eq_length: "take (length B) xs = B \<Longrightarrow> length B \<le> length xs"
proof -
  assume "take (length B) xs = B"
  then have "length (take (length B) xs) = length B" by simp
  then show ?thesis by simp
qed

lemma take_eq_append: "take (length B) xs = B \<Longrightarrow> take (length B) (xs @ ys) = B"
  using take_eq_length [of B xs] by simp

section \<open>Properties of \<open>_process_tool_calls\<close>\<close>

lemma tool_call_body_resolved:
  "(case tool_call_body env tc of Inl e \<Rightarrow> [] | Inr None \<Rightarrow> [] | Inr (Some t) \<Rightarrow> [t])
     = result_turns env tc"
  by (simp add: tool_call_body_def result_turns_def resolved_def
      split: sum.splits option.splits)

lemma tool_loop_append:
  "tool_loop env tcs acc = acc @ concat (map (result_turns env) tcs)"
proof (induction tcs arbitrary: acc)
  case Nil
  show ?case by simp
next
  case (Cons tc tcs)
  have "(case tool_call_body env tc of Inl e \<Rightarrow> acc | Inr None \<Rightarrow> acc
          | Inr (Some t) \<Rightarrow> acc @ [t]) = acc @ result_turns env tc"
    using tool_call_body_resolved [of env tc]
    by (simp split: sum.splits option.splits)
  then show ?case by (simp add: Cons.IH)
qed

text \<open>
  C8. Whatever the requests are, \<open>_process_tool_calls\<close> returns: the input turns, the echo
  turn, and then, request by request in the order of the requests, what that request alone
  contributes. A request whose name is not in the table, whose arguments fail to parse,
  whose invocation raises or whose result fails to serialize contributes nothing; one that
  goes through contributes the one turn of role \<open>tool\<close> whose \<open>tool_call_id\<close> is the id of
  that request and whose content is the serialized result. The echo turn carries the
  serialized list of all the requests. No exception leaves the function: its value is
  always a turn list.
\<close>

theorem process_tool_calls_isolated_in_order:
  "process_tool_calls env msgs tcs
     = msgs @ [echo_turn env tcs] @ concat (map (result_turns env) tcs)
   \<and> echo_turn env tcs
     = \<lparr>role = Assistant, content = None,
        tool_calls = Some (json_dumps_calls env
          (map (\<lambda>tc. (function_name tc, function_arguments tc, call_id tc)) tcs)),
        tool_call_id = None\<rparr>
   \<and> (\<forall>tc. result_turns env tc = []
         \<or> (\<exists>c. result_turns env tc
                = [\<lparr>role = Tool, content = Some c, tool_calls = None,
                    tool_call_id = Some (call_id tc)\<rparr>]))
   \<and> (\<forall>tc. tools_functions env (function_name tc) = None \<longrightarrow> result_turns env tc = [])
   \<and> (\<forall>tc e. json_loads env (function_arguments tc) = Inl e \<longrightarrow> result_turns env tc = [])
   \<and> (\<forall>tc f args e. tools_functions env (function_name tc) = Some f
         \<and> json_loads env (function_arguments tc) = Inr args \<and> f args = Inl e
         \<longrightarrow> result_turns env tc = [])
   \<and> (\<forall>tc f args res e. tools_functions env (function_name tc) = Some f
         \<and> json_loads env (function_arguments tc) = Inr args \<and> f args = Inr res
         \<and> json_dumps env res = Inl e
         \<longrightarrow> result_turns env tc = [])
   \<and> (\<forall>tc f args res c. tools_functions env (function_name tc) = Some f
         \<and> json_loads env (function_arguments tc) = Inr args \<and> f args = Inr res
         \<and> json_dumps env res = Inr c
         \<longrightarrow> result_turns env tc
             = [\<lparr>role = Tool, content = Some c, tool_calls = None,
                 tool_call_id = Some (call_id tc)\<rparr>])"
proof -
  have shape: "result_turns env tc = []
         \<or> (\<exists>c. result_turns env tc
                = [\<lparr>role = Tool, content = Some c, tool_calls = None,
                    tool_call_id = Some (call_id tc)\<rparr>])" for tc
    by (cases "resolved env tc") (simp_all add: result_turns_def tool_turn_def)
  have rest: "process_tool_calls env msgs tcs
     = msgs @ [echo_turn env tcs] @ concat (map (result_turns env) tcs)
   \<and> echo_turn env tcs
     = \<lparr>role = Assistant, content = None,
        tool_calls = Some (json_dumps_calls env
          (map (\<lambda>tc. (function_name tc, function_arguments tc, call_id tc)) tcs)),
        tool_call_id = None\<rparr>
   \<and> (\<forall>tc. tools_functions env (function_name tc) = None \<longrightarrow> result_turns env tc = [])
   \<and> (\<forall>tc e. json_loads env (function_arguments tc) = Inl e \<longrightarrow> result_turns env tc = [])
   \<and> (\<forall>tc f args e. tools_functions env (function_name tc) = Some f
         \<and> json_loads env (function_arguments tc) = Inr args \<and> f args = Inl e
         \<longrightarrow> result_turns env tc = [])
   \<and> (\<forall>tc f args res e. tools_functions env (function_name tc) = Some f
         \<and> json_loads env (function_arguments tc) = Inr args \<and> f args = Inr res
         \<and> json_dumps env res = Inl e
         \<longrightarrow> result_turns env tc = [])
   \<and> (\<forall>tc f args res c. tools_functions env (function_name tc) = Some f
         \<and> json_loads env (function_arguments tc) = Inr args \<and> f args = Inr res
         \<and> json_dumps env res = Inr c
         \<longrightarrow> result_turns env tc
             = [\<lparr>role = Tool, content = Some c, tool_calls = None,
                 tool_call_id = Some (call_id tc)\<rparr>])"
    by (auto simp add: process_tool_calls_def tool_loop_append result_turns_def resolved_def
        echo_turn_def tool_calls_serializable_def tool_turn_def split: option.splits)
  show ?thesis using shape rest by blast
qed

text \<open>
  An instance with an unknown name, a parse failure, a raising tool and a good request, in
  this order: only the last one yields a tool turn, which carries the call id \<open>4\<close>.
\<close>

theorem process_tool_calls_isolated_in_order_witness:
  "process_tool_calls example_env []
     [\<lparr>call_id = ''1'', function_name = ''nope'', function_arguments = ''x''\<rparr>,
      \<lparr>call_id = ''2'', function_name = ''search'', function_arguments = ''{''\<rparr>,
      \<lparr>call_id = ''3'', function_name = ''search'', function_arguments = ''boom''\<rparr>,
      \<lparr>call_id = ''4'', function_name = ''search'', function_arguments = ''q''\<rparr>]
   = [\<lparr>role = Assistant, content = None,
       tool_calls = Some ''nopex1search{2searchboom3searchq4'', tool_call_id = None\<rparr>,
      \<lparr>role = Tool, content = Some ''q'', tool_calls = None, tool_call_id = Some ''4''\<rparr>]"
proof -
  have r: "result_turns example_env
             \<lparr>call_id = ''1'', function_name = ''nope'', function_arguments = ''x''\<rparr> = []"
    "result_turns example_env
             \<lparr>call_id = ''2'', function_name = ''search'', function_arguments = ''{''\<rparr> = []"
    "result_turns example_env
             \<lparr>call_id = ''3'', function_name = ''search'', function_arguments = ''boom''\<rparr> = []"
    "result_turns example_env
             \<lparr>call_id = ''4'', function_name = ''search'', function_arguments = ''q''\<rparr>
       = [\<lparr>role = Tool, content = Some ''q'', tool_calls = None, tool_call_id = Some ''4''\<rparr>]"
    by (simp_all add: example_env_def result_turns_def resolved_def tool_turn_def)
  have d: "json_dumps_calls example_env
       [(''nope'', ''x'', ''1''), (''search'', ''{'', ''2''), (''search'', ''boom'', ''3''),
        (''search'', ''q'', ''4'')]
     = ''nopex1search{2searchboom3searchq4''"
    by (simp add: example_env_def)
  from process_tool_calls_isolated_in_order [of example_env "[]"
     "[\<lparr>call_id = ''1'', function_name = ''nope'', function_arguments = ''x''\<rparr>,
      \<lparr>call_id = ''2'', function_name = ''search'', function_arguments = ''{''\<rparr>,
      \<lparr>call_id = ''3'', function_name = ''search'', function_arguments = ''boom''\<rparr>,
      \<lparr>call_id = ''4'', function_name = ''search'', function_arguments = ''q''\<rparr>]"]
  have "process_tool_calls example_env []
     [\<lparr>call_id = ''1'', function_name = ''nope'', function_arguments = ''x''\<rparr>,
      \<lparr>call_id = ''2'', function_name = ''search'', function_arguments = ''{''\<rparr>,
      \<lparr>call_id = ''3'', function_name = ''search'', function_arguments = ''boom''\<rparr>,
      \<lparr>call_id = ''4'', function_name = ''search'', function_arguments = ''q''\<rparr>]
    = [] @ [\<lparr>role = Assistant, content = None,
        tool_calls = Some (json_dumps_calls example_env
          (map (\<lambda>tc. (function_name tc, function_arguments tc, call_id tc))
     [\<lparr>call_id = ''1'', function_name = ''nope'', function_arguments = ''x''\<rparr>,
      \<lparr>call_id = ''2'', function_name = ''search'', function_arguments = ''{''\<rparr>,
      \<lparr>call_id = ''3'', function_name = ''search'', function_arguments = ''boom''\<rparr>,
      \<lparr>call_id = ''4'', function_name = ''search'', function_arguments = ''q''\<rparr>])),
        tool_call_id = None\<rparr>]
      @ concat (map (result_turns example_env)
     [\<lparr>call_id = ''1'', function_name = ''nope'', function_arguments = ''x''\<rparr>,
      \<lparr>call_id = ''2'', function_name = ''search'', function_arguments = ''{''\<rparr>,
      \<lparr>call_id = ''3'', function_name = ''search'', function_arguments = ''boom''\<rparr>,
      \<lparr>call_id = ''4'', function_name = ''search'', function_arguments = ''q''\<rparr>])"
    by simp
  then show ?thesis using r d by simp
qed

lemma tool_loop_st_eq:
  "r < length st \<Longrightarrow> tool_loop_st env tcs st r = st[r := tool_loop env tcs (st ! r)]"
proof (induction tcs arbitrary: st)
  case Nil
  then show ?case by simp
next
  case (Cons tc tcs)
  then show ?case
    by (cases "tool_call_body env tc")
       (auto simp: list_append_def split: option.splits)
qed

text \<open>
  C10. On the store of list objects: \<open>_process_tool_calls\<close> returns a fresh list object,
  leaves the list it was given and every other list object as they were, and the returned
  list is the given one followed by the echo turn and the tool turns only.
\<close>

theorem process_tool_calls_frame:
  assumes "msgs < length st"
  shows "\<exists>st'. process_tool_calls_st env st msgs tcs = (st', length st)
    \<and> st' ! msgs = st ! msgs
    \<and> take (length st) st' = st
    \<and> st' ! length st = st ! msgs @ [echo_turn env tcs] @ concat (map (result_turns env) tcs)
    \<and> st' ! length st = process_tool_calls env (st ! msgs) tcs"
  using assms
  by (simp add: process_tool_calls_st_def list_copy_def list_append_def tool_loop_st_eq
      process_tool_calls_def tool_loop_append nth_append)

text \<open>
  A store with one list: the call leaves it as it is and returns the new list at
  reference 1.
\<close>

theorem process_tool_calls_frame_witness:
  "fst (process_tool_calls_st example_env [[plain_turn User (Some ''hi'')]] 0
          [\<lparr>call_id = ''4'', function_name = ''search'', function_arguments = ''q''\<rparr>]) ! 0
     = [plain_turn User (Some ''hi'')]
   \<and> fst (process_tool_calls_st example_env [[plain_turn User (Some ''hi'')]] 0
          [\<lparr>call_id = ''4'', function_name = ''search'', function_arguments = ''q''\<rparr>]) ! 1
     = [plain_turn User (Some ''hi''),
        echo_turn example_env
          [\<lparr>call_id = ''4'', function_name = ''search'', function_arguments = ''q''\<rparr>],
        tool_turn ''q'' ''4'']"
proof -
  have r: "result_turns example_env
             \<lparr>call_id = ''4'', function_name = ''search'', function_arguments = ''q''\<rparr>
           = [tool_turn ''q'' ''4'']"
    by (simp add: example_env_def result_turns_def resolved_def)
  have "(0::nat) < length [[plain_turn User (Some ''hi'')]]" by simp
  from process_tool_calls_frame [OF this, of example_env
      "[\<lparr>call_id = ''4'', function_name = ''search'', function_arguments = ''q''\<rparr>]"]
  obtain st' where
    "process_tool_calls_st example_env [[plain_turn User (Some ''hi'')]] 0
       [\<lparr>call_id = ''4'', function_name = ''search'', function_arguments = ''q''\<rparr>]
     = (st', 1)"
    "st' ! 0 = [plain_turn User (Some ''hi'')]"
    "st' ! 1 = [plain_turn User (Some ''hi'')]
       @ [echo_turn example_env
            [\<lparr>call_id = ''4'', function_name = ''search'', function_arguments = ''q''\<rparr>]]
       @ concat (map (result_turns example_env)
            [\<lparr>call_id = ''4'', function_name = ''search'', function_arguments = ''q''\<rparr>])"
    by auto
  with r show ?thesis by simp
qed

section \<open>The prompt\<close>

text \<open>
  C4 at the history of a user with nothing persisted (\<open>None\<close> or the empty list) and the
  snapshot \<open>["hi"]\<close>: the slice \<open>[:-1]\<close> is taken of the formatted list, which starts with
  the system turn, so the system turn is what it drops. The turn list sent to phase 1 is
  the user turn alone.
\<close>

theorem api_messages_short_history:
  "api_messages env None [''hi''] = [plain_turn User (Some ''hi'')]
   \<and> api_messages env (Some []) [''hi''] = [plain_turn User (Some ''hi'')]"
  by (simp add: api_messages_def format_conversation_history_def slice_upto_neg_def)

lemma api_messages_covered:
  assumes "B \<noteq> []" and "length B \<le> length H"
  shows "api_messages env (Some H) B
     = plain_turn System (Some (get_system_prompt env ''default_system''))
       # map (\<lambda>msg. plain_turn (msg_role msg) (msg_content msg)) (take (length H - length B) H)
       @ [plain_turn User (Some (str_join newline B))]"
  using assms
  by (simp add: api_messages_def format_conversation_history_def slice_upto_neg_def
      Suc_diff_le take_map)

section \<open>A call between two suspensions\<close>

text \<open>
  What each piece of \<open>generate_response\<close> does when the call is the lock holder, and what
  a new call does in each state of its user's processor.
\<close>

lemma lock_update_id: "lock p \<Longrightarrow> p\<lparr>messages := ms, lock := True\<rparr> = p\<lparr>messages := ms\<rparr>"
  by (cases p) simp

lemma cleanup_locked:
  "processors c uid = Some a \<Longrightarrow> lock (heap c ! a) \<Longrightarrow> cleanup_processor c uid = c"
  by (simp add: cleanup_processor_def is_locked_def)

lemma cleanup_processor_evicts:
  assumes "processors c uid = Some a"
  shows "processors (cleanup_processor c uid) uid
     = (if messages (heap c ! a) = [] \<and> \<not> lock (heap c ! a) then None else Some a)"
    and "heap (cleanup_processor c uid) = heap c"
    and "v \<noteq> uid \<Longrightarrow> processors (cleanup_processor c uid) v = processors c v"
  using assms by (simp_all add: cleanup_processor_def has_messages_def is_locked_def)

lemma clear_cleanup_return_holding:
  assumes "holding c uid a B"
  shows "clear_cleanup_return c uid a r = (released c a [], Returned r)"
proof -
  let ?c1 = "update_processor c a clear_messages"
  have "processors ?c1 uid = Some a" "lock (heap ?c1 ! a)"
    using assms by (simp_all add: holding_def update_processor_def clear_messages_def)
  then have "cleanup_processor ?c1 uid = ?c1" by (rule cleanup_locked)
  then show ?thesis
    using assms
    by (simp add: clear_cleanup_return_def release_lock_def update_processor_def
        clear_messages_def released_def holding_def)
qed

lemma bare_return_holding:
  "holding c uid a B \<Longrightarrow> bare_return c a = (released c a (messages (heap c ! a)), Returned None)"
  by (simp add: bare_return_def release_lock_def update_processor_def released_def holding_def)

lemma holding_nonempty:
  "holding c uid a B \<Longrightarrow> messages (heap c ! a) \<noteq> []"
  by (auto simp: holding_def)

lemma loop_top_holding:
  "holding c uid a B \<Longrightarrow>
   loop_top c uid a = (c, AwaitHistory uid a (messages (heap c ! a)))"
  by (simp add: loop_top_def get_pending_messages_def holding_nonempty)

lemma holding_fresh:
  "holding c uid a B \<Longrightarrow> holding c uid a (messages (heap c ! a))"
  by (auto simp: holding_def)

lemma history_returns_cases:
  assumes "holding c uid a B"
  shows "(fst (history_returns env c uid a B r) = c
           \<and> stays env c (AwaitHistory uid a B) (snd (history_returns env c uid a B r)))
         \<or> leaves c a (fst (history_returns env c uid a B r)) (snd (history_returns env c uid a B r))"
proof (cases r)
  case (Raises e)
  then show ?thesis
    using clear_cleanup_return_holding [OF assms]
    by (auto simp: history_returns_def history_body_def leaves_def)
next
  case (Yields H)
  then show ?thesis
    using assms by (auto simp: history_returns_def history_body_def stays_def)
qed

lemma phase1_returns_cases:
  assumes "holding c uid a B" and "api = api_messages env H B"
  shows "(fst (phase1_returns env c uid a B api r) = c
           \<and> stays env c (AwaitPhase1 uid a B api) (snd (phase1_returns env c uid a B api r)))
         \<or> leaves c a (fst (phase1_returns env c uid a B api r))
              (snd (phase1_returns env c uid a B api r))"
proof (cases "generate_completion r")
  case None
  then show ?thesis
    using bare_return_holding [OF assms(1)]
    by (auto simp: phase1_returns_def leaves_def)
next
  case (Some initial_response)
  show ?thesis
  proof (cases "check_new_messages (heap c ! a) (length B)")
    case True
    then show ?thesis
      using Some loop_top_holding [OF assms(1)] holding_fresh [OF assms(1)]
      by (simp add: phase1_returns_def stays_def)
  next
    case False
    then show ?thesis
      using Some clear_cleanup_return_holding [OF assms(1)] assms
      by (auto simp: phase1_returns_def stays_def leaves_def)
  qed
qed

lemma phase2_returns_cases:
  assumes "holding c uid a B"
  shows "(fst (phase2_returns c uid a B tcs upd r) = c
           \<and> stays env c (AwaitPhase2 uid a B tcs upd) (snd (phase2_returns c uid a B tcs upd r)))
         \<or> leaves c a (fst (phase2_returns c uid a B tcs upd r))
              (snd (phase2_returns c uid a B tcs upd r))"
proof (cases "generate_completion r")
  case None
  then show ?thesis
    using bare_return_holding [OF assms]
    by (auto simp: phase2_returns_def leaves_def)
next
  case (Some final_response)
  show ?thesis
  proof (cases "check_new_messages (heap c ! a) (length B)")
    case True
    then show ?thesis
      using Some loop_top_holding [OF assms] holding_fresh [OF assms]
      by (simp add: phase2_returns_def stays_def)
  next
    case False
    then show ?thesis
      using Some clear_cleanup_return_holding [OF assms]
      by (auto simp: phase2_returns_def leaves_def)
  qed
qed

lemma resume_cases:
  assumes "active t" and "holds c t" and "prompt_ok env t" and "task_processor t = Some a"
  shows "(fst (resume env c t ans) = c \<and> stays env c t (snd (resume env c t ans)))
         \<or> leaves c a (fst (resume env c t ans)) (snd (resume env c t ans))"
proof (cases t)
  case (AwaitHistory uid a' B)
  then show ?thesis
    using assms history_returns_cases [of c uid a B env "history_answer ans"] by simp
next
  case (AwaitPhase1 uid a' B api)
  then show ?thesis
    using assms phase1_returns_cases [of c uid a B api env _ "completion_answer ans"] by auto
next
  case (AwaitPhase2 uid a' B tcs upd)
  then show ?thesis
    using assms phase2_returns_cases [of c uid a B tcs upd "completion_answer ans" env] by simp
next
  case (Returned r)
  then show ?thesis using assms by simp
next
  case (Raised e)
  then show ?thesis using assms by simp
qed

lemma generate_response_new_user:
  assumes "processors c uid = None"
  shows "generate_response c uid m =
     (c\<lparr>processors := (processors c)(uid \<mapsto> length (heap c)),
        heap := heap c @ [\<lparr>user_id = uid, lock = True, messages = [m]\<rparr>]\<rparr>,
      AwaitHistory uid (length (heap c)) [m])"
  using assms
  by (simp add: generate_response_def get_processor_def update_processor_def add_message_def
      MessageProcessor_init_def is_locked_def acquire_lock_def loop_top_def
      get_pending_messages_def Let_def)

lemma generate_response_locked:
  assumes "processors c uid = Some a" and "a < length (heap c)" and "lock (heap c ! a)"
  shows "generate_response c uid m =
     (c\<lparr>heap := (heap c)[a := (heap c ! a)\<lparr>messages := messages (heap c ! a) @ [m]\<rparr>]\<rparr>,
      Returned None)"
  using assms
  by (simp add: generate_response_def get_processor_def update_processor_def add_message_def
      is_locked_def)

lemma generate_response_free:
  assumes "processors c uid = Some a" and "a < length (heap c)" and "\<not> lock (heap c ! a)"
  shows "generate_response c uid m =
     (c\<lparr>heap := (heap c)[a := (heap c ! a)\<lparr>messages := messages (heap c ! a) @ [m],
                                            lock := True\<rparr>]\<rparr>,
      AwaitHistory uid a (messages (heap c ! a) @ [m]))"
  using assms
  by (simp add: generate_response_def get_processor_def update_processor_def add_message_def
      is_locked_def acquire_lock_def loop_top_def get_pending_messages_def Let_def)

lemma generate_response_existing:
  assumes "processors c uid = Some a" and "a < length (heap c)"
  shows "generate_response c uid m =
     (c\<lparr>heap := (heap c)[a := (heap c ! a)\<lparr>messages := messages (heap c ! a) @ [m],
                                            lock := True\<rparr>]\<rparr>,
      if lock (heap c ! a) then Returned None
      else AwaitHistory uid a (messages (heap c ! a) @ [m]))"
proof (cases "lock (heap c ! a)")
  case True
  then show ?thesis
    using generate_response_locked [OF assms True, of m] by (simp add: lock_update_id)
next
  case False
  then show ?thesis using generate_response_free [OF assms False, of m] by simp
qed




section \<open>The invariant holds in every reachable state\<close>

text \<open>
  The initial state satisfies \<open>inv\<close>, and a new call and the resumption of an active call
  preserve it.
\<close>

lemma holds_cases:
  "holds c t \<Longrightarrow>
     (\<not> active t \<and> task_user t = None \<and> task_processor t = None)
     \<or> (\<exists>uid a. task_user t = Some uid \<and> task_processor t = Some a \<and> active t
           \<and> holding c uid a (snapshot t))"
  by (cases t) auto

lemma holds_finished: "\<not> active t \<Longrightarrow> holds c t \<and> prompt_ok env t"
  by (cases t) auto

lemma active_processor: "active t \<longleftrightarrow> (\<exists>a. task_processor t = Some a)"
  by (cases t) auto

lemma holds_transfer:
  assumes "holds c t"
    and "\<And>uid a. task_user t = Some uid \<Longrightarrow> task_processor t = Some a
           \<Longrightarrow> holding c uid a (snapshot t) \<Longrightarrow> holding c' uid a (snapshot t)"
  shows "holds c' t"
  using assms by (cases t) auto

lemma holding_update:
  assumes "holding c u a' B" and "a < length (heap c)"
    and "a' = a \<Longrightarrow> lock p' \<and> take (length B) (messages p') = B"
  shows "holding (c\<lparr>heap := (heap c)[a := p']\<rparr>) u a' B"
  using assms by (auto simp: holding_def nth_list_update)

lemma registry_ok_update:
  assumes "registry_ok c" and "user_id p' = user_id (heap c ! a)"
  shows "registry_ok (c\<lparr>heap := (heap c)[a := p']\<rparr>)"
  unfolding registry_ok_def
proof (intro allI impI)
  fix u b assume "processors (c\<lparr>heap := (heap c)[a := p']\<rparr>) u = Some b"
  then have b: "b < length (heap c)" "user_id (heap c ! b) = u"
    using assms(1) by (auto simp: registry_ok_def)
  show "b < length (heap (c\<lparr>heap := (heap c)[a := p']\<rparr>))
      \<and> user_id (heap (c\<lparr>heap := (heap c)[a := p']\<rparr>) ! b) = u"
    using b assms(2) by (cases "b = a") simp_all
qed

lemma inv_init: "inv env system_init"
  by (simp add: inv_def system_init_def LLMClient_init_def registry_ok_def one_holder_def
      lock_has_holder_def)

lemma inv_call_new:
  assumes "inv env s" and "processors (client s) uid = None"
  shows "inv env (do_call s uid m)"
proof -
  let ?c = "client s" and ?ts = "tasks s"
  let ?n = "length (heap ?c)"
  let ?c' = "?c\<lparr>processors := (processors ?c)(uid \<mapsto> ?n),
                 heap := heap ?c @ [\<lparr>user_id = uid, lock = True, messages = [m]\<rparr>]\<rparr>"
  let ?t = "AwaitHistory uid ?n [m]"
  have s': "do_call s uid m = \<lparr>client = ?c', tasks = ?ts @ [?t]\<rparr>"
    using generate_response_new_user [OF assms(2)] by (simp add: do_call_def)
  have reg: "registry_ok ?c" and hp: "\<And>i. i < length ?ts \<Longrightarrow> holds ?c (?ts ! i)"
    and pr: "\<And>i. i < length ?ts \<Longrightarrow> prompt_ok env (?ts ! i)"
    and one: "one_holder ?ts" and lh: "lock_has_holder ?c ?ts"
    using assms(1) by (auto simp: inv_def)
  have below: "a < ?n" if "i < length ?ts" "task_processor (?ts ! i) = Some a" for i a
    using holds_cases [OF hp [OF that(1)]] that(2) by (auto simp: holding_def)
  have reg': "registry_ok ?c'"
    unfolding registry_ok_def
  proof (intro allI impI)
    fix u a assume h: "processors ?c' u = Some a"
    show "a < length (heap ?c') \<and> user_id (heap ?c' ! a) = u"
    proof (cases "u = uid")
      case True
      then show ?thesis using h by auto
    next
      case False
      then have "processors ?c u = Some a" using h by simp
      then have "a < ?n \<and> user_id (heap ?c ! a) = u" using reg by (simp add: registry_ok_def)
      then show ?thesis by (simp add: nth_append)
    qed
  qed
  have old: "holds ?c' (?ts ! i)" if "i < length ?ts" for i
  proof (rule holds_transfer [OF hp [OF that]])
    fix u a assume "holding ?c u a (snapshot (?ts ! i))"
    then show "holding ?c' u a (snapshot (?ts ! i))"
      using assms(2) by (auto simp: holding_def nth_append)
  qed
  have new: "holds ?c' ?t" by (simp add: holding_def)
  have hp': "holds ?c' ((?ts @ [?t]) ! i) \<and> prompt_ok env ((?ts @ [?t]) ! i)"
    if "i < length (?ts @ [?t])" for i
    using that old pr new by (cases "i < length ?ts") (auto simp: nth_append)
  have one': "one_holder (?ts @ [?t])"
    unfolding one_holder_def
  proof (intro allI impI)
    fix i j
    assume h: "i < length (?ts @ [?t]) \<and> j < length (?ts @ [?t]) \<and> active ((?ts @ [?t]) ! i)
       \<and> active ((?ts @ [?t]) ! j)
       \<and> task_processor ((?ts @ [?t]) ! i) = task_processor ((?ts @ [?t]) ! j)"
    show "i = j"
    proof (cases "i < length ?ts"; cases "j < length ?ts")
      assume "i < length ?ts" "j < length ?ts"
      then show ?thesis using h one by (auto simp: one_holder_def nth_append)
    next
      assume ij: "i < length ?ts" "\<not> j < length ?ts"
      then have "task_processor (?ts ! i) = Some ?n" using h by (auto simp: nth_append)
      then show ?thesis using below [OF ij(1)] by auto
    next
      assume ij: "\<not> i < length ?ts" "j < length ?ts"
      then have "task_processor (?ts ! j) = Some ?n" using h by (auto simp: nth_append)
      then show ?thesis using below [OF ij(2)] by auto
    next
      assume "\<not> i < length ?ts" "\<not> j < length ?ts"
      then show ?thesis using h by auto
    qed
  qed
  have lh': "lock_has_holder ?c' (?ts @ [?t])"
    unfolding lock_has_holder_def
  proof (intro allI impI)
    fix a assume h: "a < length (heap ?c') \<and> lock (heap ?c' ! a)"
    show "\<exists>i. i < length (?ts @ [?t]) \<and> task_processor ((?ts @ [?t]) ! i) = Some a"
    proof (cases "a < ?n")
      case True
      then obtain i where "i < length ?ts" "task_processor (?ts ! i) = Some a"
        using h lh by (auto simp: lock_has_holder_def nth_append)
      then show ?thesis by (intro exI [of _ i]) (simp add: nth_append)
    next
      case False
      then have "a = ?n" using h by simp
      then show ?thesis by (intro exI [of _ "length ?ts"]) simp
    qed
  qed
  show ?thesis
    unfolding s' inv_def using reg' hp' one' lh' by simp
qed

lemma inv_call_existing:
  assumes "inv env s" and "processors (client s) uid = Some a"
  shows "inv env (do_call s uid m)"
proof -
  let ?c = "client s" and ?ts = "tasks s"
  let ?p = "heap ?c ! a"
  let ?p' = "?p\<lparr>messages := messages ?p @ [m], lock := True\<rparr>"
  let ?c' = "?c\<lparr>heap := (heap ?c)[a := ?p']\<rparr>"
  let ?t = "if lock ?p then Returned None else AwaitHistory uid a (messages ?p @ [m])"
  have reg: "registry_ok ?c" and hp: "\<And>i. i < length ?ts \<Longrightarrow> holds ?c (?ts ! i)"
    and pr: "\<And>i. i < length ?ts \<Longrightarrow> prompt_ok env (?ts ! i)"
    and one: "one_holder ?ts" and lh: "lock_has_holder ?c ?ts"
    using assms(1) by (auto simp: inv_def)
  have a: "a < length (heap ?c)" using reg assms(2) by (simp add: registry_ok_def)
  have s': "do_call s uid m = \<lparr>client = ?c', tasks = ?ts @ [?t]\<rparr>"
    using generate_response_existing [OF assms(2) a, of m] by (simp add: do_call_def)
  have reg': "registry_ok ?c'"
    by (rule registry_ok_update [OF reg]) simp
  have locked: "lock ?p" if "i < length ?ts" "task_processor (?ts ! i) = Some a" for i
    using holds_cases [OF hp [OF that(1)]] that(2) by (auto simp: holding_def)
  have old: "holds ?c' (?ts ! i)" if "i < length ?ts" for i
  proof (rule holds_transfer [OF hp [OF that]])
    fix u a' assume h: "holding ?c u a' (snapshot (?ts ! i))"
    show "holding ?c' u a' (snapshot (?ts ! i))"
    proof (rule holding_update [OF h a])
      assume "a' = a"
      then have "take (length (snapshot (?ts ! i))) (messages ?p) = snapshot (?ts ! i)"
        using h by (simp add: holding_def)
      then have "take (length (snapshot (?ts ! i))) (messages ?p @ [m]) = snapshot (?ts ! i)"
        by (rule take_eq_append)
      then show "lock ?p' \<and> take (length (snapshot (?ts ! i))) (messages ?p') = snapshot (?ts ! i)"
        by simp
    qed
  qed
  have new: "holds ?c' ?t"
    using a assms(2) by (simp add: holding_def)
  have hp': "holds ?c' ((?ts @ [?t]) ! i) \<and> prompt_ok env ((?ts @ [?t]) ! i)"
    if "i < length (?ts @ [?t])" for i
  proof (cases "i < length ?ts")
    case True
    then show ?thesis using old pr by (simp add: nth_append)
  next
    case False
    then have "(?ts @ [?t]) ! i = ?t" using that by (simp add: nth_append)
    then show ?thesis using new by simp
  qed
  have one': "one_holder (?ts @ [?t])"
    unfolding one_holder_def
  proof (intro allI impI)
    fix i j
    assume h: "i < length (?ts @ [?t]) \<and> j < length (?ts @ [?t]) \<and> active ((?ts @ [?t]) ! i)
       \<and> active ((?ts @ [?t]) ! j)
       \<and> task_processor ((?ts @ [?t]) ! i) = task_processor ((?ts @ [?t]) ! j)"
    show "i = j"
    proof (cases "i < length ?ts"; cases "j < length ?ts")
      assume "i < length ?ts" "j < length ?ts"
      then show ?thesis using h one by (auto simp: one_holder_def nth_append)
    next
      assume ij: "i < length ?ts" "\<not> j < length ?ts"
      then have "active ?t" "task_processor (?ts ! i) = task_processor ?t"
        using h by (auto simp: nth_append)
      then have "\<not> lock ?p" "task_processor (?ts ! i) = Some a"
        by (auto split: if_splits)
      then show ?thesis using locked [OF ij(1)] by simp
    next
      assume ij: "\<not> i < length ?ts" "j < length ?ts"
      then have "active ?t" "task_processor (?ts ! j) = task_processor ?t"
        using h by (auto simp: nth_append)
      then have "\<not> lock ?p" "task_processor (?ts ! j) = Some a"
        by (auto split: if_splits)
      then show ?thesis using locked [OF ij(2)] by simp
    next
      assume "\<not> i < length ?ts" "\<not> j < length ?ts"
      then show ?thesis using h by auto
    qed
  qed
  have lh': "lock_has_holder ?c' (?ts @ [?t])"
    unfolding lock_has_holder_def
  proof (intro allI impI)
    fix b assume h: "b < length (heap ?c') \<and> lock (heap ?c' ! b)"
    show "\<exists>i. i < length (?ts @ [?t]) \<and> task_processor ((?ts @ [?t]) ! i) = Some b"
    proof (cases "b = a \<and> \<not> lock ?p")
      case True
      then show ?thesis by (intro exI [of _ "length ?ts"]) simp
    next
      case False
      then have "b < length (heap ?c) \<and> lock (heap ?c ! b)"
        using h by (cases "b = a") (auto simp: nth_list_update)
      then obtain i where "i < length ?ts" "task_processor (?ts ! i) = Some b"
        using lh by (auto simp: lock_has_holder_def)
      then show ?thesis by (intro exI [of _ i]) (simp add: nth_append)
    qed
  qed
  show ?thesis
    unfolding s' inv_def using reg' hp' one' lh' by simp
qed

lemma inv_call: "inv env s \<Longrightarrow> inv env (do_call s uid m)"
  by (cases "processors (client s) uid") (auto intro: inv_call_new inv_call_existing)

lemma inv_leave:
  assumes "inv env s" and "i < length (tasks s)" and "task_processor (tasks s ! i) = Some a"
    and "\<not> active t'"
  shows "inv env \<lparr>client = released (client s) a ms, tasks = (tasks s)[i := t']\<rparr>"
proof -
  let ?c = "client s" and ?ts = "tasks s"
  let ?c' = "released ?c a ms" and ?t' = t'
  have reg: "registry_ok ?c" and hp: "\<And>j. j < length ?ts \<Longrightarrow> holds ?c (?ts ! j)"
    and pr: "\<And>j. j < length ?ts \<Longrightarrow> prompt_ok env (?ts ! j)"
    and one: "one_holder ?ts" and lh: "lock_has_holder ?c ?ts"
    using assms(1) by (auto simp: inv_def)
  have a: "task_processor (?ts ! i) = Some a" by (rule assms(3))
  have act: "active (?ts ! i)" using a by (auto simp: active_processor)
  have al: "a < length (heap ?c)"
    using holds_cases [OF hp [OF assms(2)]] a by (auto simp: holding_def)
  have t': "\<not> active ?t'" by (rule assms(4))
  let ?p' = "(heap ?c ! a)\<lparr>messages := ms, lock := False\<rparr>"
  have c'': "?c' = ?c\<lparr>heap := (heap ?c)[a := ?p']\<rparr>"
    by (simp add: released_def)
  have reg': "registry_ok ?c'"
    unfolding c'' by (rule registry_ok_update [OF reg]) simp
  have other: "task_processor (?ts ! j) \<noteq> Some a" if "j < length ?ts" "j \<noteq> i" for j
  proof
    assume "task_processor (?ts ! j) = Some a"
    then have "active (?ts ! j)" "task_processor (?ts ! j) = task_processor (?ts ! i)"
      using a by (auto simp: active_processor)
    then show False
      using one that assms(2) act by (auto simp: one_holder_def)
  qed
  have hp': "holds ?c' (?ts[i := ?t'] ! j) \<and> prompt_ok env (?ts[i := ?t'] ! j)"
    if "j < length ?ts" for j
  proof (cases "j = i")
    case True
    then show ?thesis using that holds_finished [OF t'] by simp
  next
    case False
    have "holds ?c' (?ts ! j)"
    proof (rule holds_transfer [OF hp [OF that]])
      fix u a'
      assume "task_processor (?ts ! j) = Some a'" and h: "holding ?c u a' (snapshot (?ts ! j))"
      then have "a' \<noteq> a" using other [OF that False] by auto
      then show "holding ?c' u a' (snapshot (?ts ! j))"
        unfolding c'' using holding_update [OF h al] by simp
    qed
    then show ?thesis using False pr [OF that] by simp
  qed
  have one': "one_holder (?ts[i := ?t'])"
    unfolding one_holder_def
  proof (intro allI impI)
    fix j k
    assume h: "j < length (?ts[i := ?t']) \<and> k < length (?ts[i := ?t'])
      \<and> active (?ts[i := ?t'] ! j) \<and> active (?ts[i := ?t'] ! k)
      \<and> task_processor (?ts[i := ?t'] ! j) = task_processor (?ts[i := ?t'] ! k)"
    then have "j \<noteq> i" "k \<noteq> i" using t' by auto
    then show "j = k" using h one by (auto simp: one_holder_def)
  qed
  have lh': "lock_has_holder ?c' (?ts[i := ?t'])"
    unfolding lock_has_holder_def
  proof (intro allI impI)
    fix b assume h: "b < length (heap ?c') \<and> lock (heap ?c' ! b)"
    then have "b \<noteq> a" using al by (auto simp: c'')
    then have "b < length (heap ?c) \<and> lock (heap ?c ! b)" using h by (simp add: c'')
    then obtain j where j: "j < length ?ts" "task_processor (?ts ! j) = Some b"
      using lh by (auto simp: lock_has_holder_def)
    then have "j \<noteq> i" using a \<open>b \<noteq> a\<close> by auto
    then show "\<exists>j. j < length (?ts[i := ?t']) \<and> task_processor (?ts[i := ?t'] ! j) = Some b"
      using j by (intro exI [of _ j]) simp
  qed
  show ?thesis
    unfolding inv_def using reg' hp' one' lh' by simp
qed

lemma inv_resume:
  assumes "inv env s" and "i < length (tasks s)" and "active (tasks s ! i)"
  shows "inv env (do_resume env s i ans)"
proof -
  let ?c = "client s" and ?ts = "tasks s"
  let ?c' = "fst (resume env ?c (?ts ! i) ans)" and ?t' = "snd (resume env ?c (?ts ! i) ans)"
  have s': "do_resume env s i ans = \<lparr>client = ?c', tasks = ?ts[i := ?t']\<rparr>"
    by (simp add: do_resume_def split: prod.splits)
  have reg: "registry_ok ?c" and hp: "\<And>j. j < length ?ts \<Longrightarrow> holds ?c (?ts ! j)"
    and pr: "\<And>j. j < length ?ts \<Longrightarrow> prompt_ok env (?ts ! j)"
    and one: "one_holder ?ts" and lh: "lock_has_holder ?c ?ts"
    using assms(1) by (auto simp: inv_def)
  obtain a where a: "task_processor (?ts ! i) = Some a"
    using assms(3) by (auto simp: active_processor)
  have al: "a < length (heap ?c)"
    using holds_cases [OF hp [OF assms(2)]] a by (auto simp: holding_def)
  from resume_cases [OF assms(3) hp [OF assms(2)] pr [OF assms(2)] a, of ans]
  show ?thesis
  proof
    assume "?c' = ?c \<and> stays env ?c (?ts ! i) ?t'"
    then have c: "?c' = ?c" and st: "active ?t'" "holds ?c ?t'" "prompt_ok env ?t'"
      "task_processor ?t' = task_processor (?ts ! i)"
      by (auto simp: stays_def)
    have same: "task_processor (?ts[i := ?t'] ! j) = task_processor (?ts ! j)"
      "active (?ts[i := ?t'] ! j) = active (?ts ! j)" if "j < length ?ts" for j
      using that st assms(3) by (cases "j = i"; simp)+
    have hp': "holds ?c (?ts[i := ?t'] ! j) \<and> prompt_ok env (?ts[i := ?t'] ! j)"
      if "j < length ?ts" for j
      using that st hp pr by (cases "j = i") simp_all
    have one': "one_holder (?ts[i := ?t'])"
      unfolding one_holder_def
    proof (intro allI impI)
      fix j k
      assume h: "j < length (?ts[i := ?t']) \<and> k < length (?ts[i := ?t'])
        \<and> active (?ts[i := ?t'] ! j) \<and> active (?ts[i := ?t'] ! k)
        \<and> task_processor (?ts[i := ?t'] ! j) = task_processor (?ts[i := ?t'] ! k)"
      then have "j < length ?ts" "k < length ?ts" by simp_all
      then have "active (?ts ! j)" "active (?ts ! k)"
        "task_processor (?ts ! j) = task_processor (?ts ! k)"
        using h same by auto
      then show "j = k"
        using one \<open>j < length ?ts\<close> \<open>k < length ?ts\<close> by (auto simp: one_holder_def)
    qed
    have lh': "lock_has_holder ?c (?ts[i := ?t'])"
      unfolding lock_has_holder_def
    proof (intro allI impI)
      fix b assume "b < length (heap ?c) \<and> lock (heap ?c ! b)"
      then obtain j where j: "j < length ?ts" "task_processor (?ts ! j) = Some b"
        using lh by (auto simp: lock_has_holder_def)
      then show "\<exists>j. j < length (?ts[i := ?t']) \<and> task_processor (?ts[i := ?t'] ! j) = Some b"
        using same(1) [OF j(1)] by (intro exI [of _ j]) simp
    qed
    show ?thesis
      unfolding s' inv_def using c reg hp' one' lh' by simp
  next
    assume "leaves ?c a ?c' ?t'"
    then obtain ms where t': "\<not> active ?t'" and c': "?c' = released ?c a ms"
      by (auto simp: leaves_def)
    show ?thesis
      unfolding s' c' using inv_leave [OF assms(1,2) a t'] .
  qed
qed

lemma inv_throw:
  assumes "inv env s" and "i < length (tasks s)" and "active (tasks s ! i)"
  shows "inv env (do_throw s i b)"
proof -
  let ?c = "client s" and ?t = "tasks s ! i"
  obtain a where a: "task_processor ?t = Some a"
    using assms(3) by (auto simp: active_processor)
  have "throw_in ?c ?t b = (release_lock ?c a, Raised (BaseException b))"
    using a by (cases ?t) (simp_all add: propagate_def)
  moreover have "release_lock ?c a = released ?c a (messages (heap ?c ! a))"
    by (simp add: release_lock_def update_processor_def released_def)
  ultimately have "do_throw s i b
      = \<lparr>client = released ?c a (messages (heap ?c ! a)),
         tasks = (tasks s)[i := Raised (BaseException b)]\<rparr>"
    by (simp add: do_throw_def)
  then show ?thesis
    using inv_leave [OF assms(1,2) a, of "Raised (BaseException b)"] by simp
qed

lemma reachable_inv: "reachable env s \<Longrightarrow> inv env s"
  by (induction rule: reachable.induct) (auto intro: inv_init inv_call inv_resume inv_throw)

lemma run_snoc: "run env (ls @ [l]) = apply_label env (run env ls) l"
  by (simp add: run_def)

lemma run_reachable: "reachable env (run env ls)"
proof (induction ls rule: rev_induct)
  case Nil
  show ?case by (simp add: run_def reachable.start)
next
  case (snoc l ls)
  show ?case
  proof (cases l)
    case (Call uid m)
    then show ?thesis using snoc by (simp add: run_snoc reachable.call)
  next
    case (Resume i ans)
    then show ?thesis using snoc by (simp add: run_snoc reachable.resumed)
  next
    case (Cancel i b)
    then show ?thesis using snoc by (simp add: run_snoc reachable.thrown)
  qed
qed

lemma run_inv: "inv env (run env ls)"
  using run_reachable by (rule reachable_inv)

section \<open>The concrete runs\<close>

text \<open>
  The states of Scenario A and of the two-user run, computed from the definitions.
\<close>

lemmas run_defs =
  generate_response_def get_processor_def update_processor_def add_message_def
  MessageProcessor_init_def is_locked_def acquire_lock_def loop_top_def
  get_pending_messages_def Let_def LLMClient_init_def history_returns_def history_body_def
  phase1_returns_def phase2_returns_def generate_completion_def generate_completion_body_def
  check_new_messages_def clear_cleanup_return_def cleanup_processor_def clear_messages_def
  has_messages_def release_lock_def bare_return_def api_messages_def
  format_conversation_history_def slice_upto_neg_def slice_from_neg_def response_messages_def
  process_tool_calls_def tool_call_body_def echo_turn_def tool_turn_def plain_turn_def
  tool_calls_serializable_def newline_def history_hi_def completion_of_def

lemmas step_defs =
  run_def do_call_def do_resume_def system_init_def says_hello_def history_both_def



lemma two_users_state:
  "run example_env two_users =
     \<lparr>client = \<lparr>processors = [7 \<mapsto> 0, 8 \<mapsto> 1],
                heap = [\<lparr>user_id = 7, lock = True, messages = [''hi'', ''again'']\<rparr>,
                        \<lparr>user_id = 8, lock = True, messages = [''yo'']\<rparr>]\<rparr>,
      tasks = [AwaitHistory 7 0 [''hi''], AwaitHistory 8 1 [''yo''], Returned None]\<rparr>"
  by (simp add: two_users_def step_defs run_defs)

section \<open>Terminal paths and the registry\<close>

text \<open>
  How a generation ends. The exception handler, the empty snapshot and the success clear
  the buffer; the two \<open>return None\<close> after a null completion do not, nor does an exception
  outside \<open>Exception\<close>. None of them removes the registry entry, since the cleanup runs
  while the lock is still held.
\<close>

lemma null_completion_keeps_buffer:
  assumes "generate_completion r = None" and "a < length (heap c)"
  shows "phase1_returns env c uid a B api r = (release_lock c a, Returned None)"
    and "phase2_returns c uid a B tcs upd r = (release_lock c a, Returned None)"
    and "messages (heap (release_lock c a) ! a) = messages (heap c ! a)"
    and "processors (release_lock c a) = processors c"
  using assms
  by (simp_all add: phase1_returns_def phase2_returns_def bare_return_def release_lock_def
      update_processor_def)

lemma history_failure_clears_buffer:
  assumes "holding c uid a B"
  shows "history_returns env c uid a B (Raises e) = (released c a [], Returned None)"
    and "messages (heap (released c a []) ! a) = []"
    and "processors (released c a []) uid = Some a"
  using assms clear_cleanup_return_holding [OF assms, of None]
  by (simp_all add: history_returns_def history_body_def released_def holding_def)

text \<open>
  C2 at a phase-1 provider failure: the call returns \<open>None\<close> and releases the lock, and the
  message \<open>hi\<close> is still in the buffer.
\<close>

theorem completion_failure_keeps_buffer:
  "snd (drive example_env (generate_response LLMClient_init 7 ''hi'')
          [history_hi, completion_of (Raises (OtherError ''provider down''))])
     = Returned None
   \<and> heap (fst (drive example_env (generate_response LLMClient_init 7 ''hi'')
          [history_hi, completion_of (Raises (OtherError ''provider down''))]))
     = [\<lparr>user_id = 7, lock = False, messages = [''hi'']\<rparr>]"
  by (simp add: run_defs)

text \<open>
  C3, Scenario B run from a fresh client: the phase-1 result carries two requests of which
  only \<open>search\<close> is registered. One tool turn is produced and phase 2 runs, but the outcome
  is cut as the last \<open>2 + 1\<close> turns of \<open>updated_messages\<close>, which holds only the echo and one
  tool turn after the prompt: the cut starts at the synthetic user turn. The outcome has
  four turns, the first of role \<open>user\<close>, and the echo turn has lost the raw requests (it is
  read through \<open>content\<close>, which it does not carry).
\<close>

theorem scenario_b_outcome:
  "snd (drive example_env (generate_response LLMClient_init 7 ''hi'')
     [history_hi,
      completion_of (Yields [\<lparr>cm_content = None, cm_tool_calls = scenario_b_calls\<rparr>]),
      completion_of (Yields [\<lparr>cm_content = Some ''done'', cm_tool_calls = []\<rparr>])])
   = Returned (Some [plain_turn User None, plain_turn Assistant None,
        plain_turn Tool (Some ''q''), plain_turn Assistant (Some ''done'')])"
  by (simp add: run_defs scenario_b_calls_def example_env_def enumerate_eq_zip)

text \<open>
  C5 at a successful generation: the buffer is empty and the lock is free afterwards, and
  the registry still maps the user to the processor. The cleanup ran inside
  \<open>async with processor.lock\<close>, where the lock is held.
\<close>

theorem success_leaves_processor_registered:
  "snd (drive example_env (generate_response LLMClient_init 7 ''hi'')
          [history_hi, completion_of (Yields [\<lparr>cm_content = Some ''hello'', cm_tool_calls = []\<rparr>])])
     = Returned (Some [plain_turn Assistant (Some ''hello'')])
   \<and> heap (fst (drive example_env (generate_response LLMClient_init 7 ''hi'')
          [history_hi, completion_of (Yields [\<lparr>cm_content = Some ''hello'', cm_tool_calls = []\<rparr>])]))
     = [\<lparr>user_id = 7, lock = False, messages = []\<rparr>]
   \<and> processors (fst (drive example_env (generate_response LLMClient_init 7 ''hi'')
          [history_hi, completion_of (Yields [\<lparr>cm_content = Some ''hello'', cm_tool_calls = []\<rparr>])])) 7
     = Some 0"
  by (simp add: run_defs)

lemma throw_in_registry: "processors (fst (throw_in c t b)) = processors c"
  by (cases t) (simp_all add: propagate_def release_lock_def update_processor_def)

lemma registry_never_shrinks:
  assumes "inv env s" and "processors (client s) uid = Some a"
  shows "processors (client (apply_label env s l)) uid = Some a"
proof (cases l)
  case (Call u m)
  show ?thesis
  proof (cases "processors (client s) u")
    case None
    then have "u \<noteq> uid" using assms(2) by auto
    then show ?thesis
      using Call assms(2) generate_response_new_user [OF None] by (simp add: do_call_def)
  next
    case (Some b)
    have "b < length (heap (client s))"
      using assms(1) Some by (simp add: inv_def registry_ok_def)
    then show ?thesis
      using Call assms(2) generate_response_existing [OF Some] by (simp add: do_call_def)
  qed
next
  case (Resume i ans)
  show ?thesis
  proof (cases "i < length (tasks s) \<and> active (tasks s ! i)")
    case True
    let ?c = "client s" and ?t = "tasks s ! i"
    have hp: "holds ?c ?t" and pr: "prompt_ok env ?t"
      using assms(1) True by (auto simp: inv_def)
    obtain b where b: "task_processor ?t = Some b"
      using True by (auto simp: active_processor)
    have c': "client (do_resume env s i ans) = fst (resume env ?c ?t ans)"
      by (simp add: do_resume_def split: prod.splits)
    from resume_cases [OF _ hp pr b, of ans] True
    show ?thesis
      using Resume assms(2) by (auto simp: c' leaves_def released_def)
  next
    case False
    then show ?thesis using Resume assms(2) by auto
  qed
next
  case (Cancel i b)
  have "client (do_throw s i b) = fst (throw_in (client s) (tasks s ! i) b)"
    by (simp add: do_throw_def split: prod.splits)
  then show ?thesis using Cancel assms(2) by (simp add: throw_in_registry)
qed

lemma registered_for_good:
  assumes "processors (client (run env ls)) uid = Some a"
  shows "processors (client (run env (ls @ ls'))) uid = Some a"
proof (induction ls' rule: rev_induct)
  case Nil
  show ?case using assms by simp
next
  case (snoc l ls')
  have "run env (ls @ ls' @ [l]) = apply_label env (run env (ls @ ls')) l"
    using run_snoc [of env "ls @ ls'" l] by simp
  then show ?case
    using registry_never_shrinks [OF run_inv snoc.IH, of l] by simp
qed

section \<open>Mutual exclusion\<close>

lemma same_user_same_processor:
  assumes "holds c t" and "holds c t'" and "active t" and "task_user t = task_user t'"
  shows "task_processor t = task_processor t'"
proof -
  obtain u a where t: "task_user t = Some u" "task_processor t = Some a" "holding c u a (snapshot t)"
    using holds_cases [OF assms(1)] assms(3) by auto
  then have "task_user t' \<noteq> None" using assms(4) by auto
  then obtain u' a' where t': "task_user t' = Some u'" "task_processor t' = Some a'"
      "holding c u' a' (snapshot t')"
    using holds_cases [OF assms(2)] by auto
  then show ?thesis using t assms(4) by (auto simp: holding_def)
qed

lemma free_user:
  assumes "inv env s" and "\<And>i. i < length (tasks s) \<Longrightarrow> task_user (tasks s ! i) \<noteq> Some uid"
    and "processors (client s) uid = Some a"
  shows "a < length (heap (client s)) \<and> \<not> lock (heap (client s) ! a)"
proof -
  let ?c = "client s" and ?ts = "tasks s"
  have reg: "registry_ok ?c" and hp: "\<And>j. j < length ?ts \<Longrightarrow> holds ?c (?ts ! j)"
    and lh: "lock_has_holder ?c ?ts"
    using assms(1) by (auto simp: inv_def)
  have a: "a < length (heap ?c)" "user_id (heap ?c ! a) = uid"
    using reg assms(3) by (auto simp: registry_ok_def)
  have "\<not> lock (heap ?c ! a)"
  proof
    assume "lock (heap ?c ! a)"
    then obtain i where i: "i < length ?ts" "task_processor (?ts ! i) = Some a"
      using lh a by (auto simp: lock_has_holder_def)
    then obtain u where u: "task_user (?ts ! i) = Some u" "processors ?c u = Some a"
      using holds_cases [OF hp [OF i(1)]] by (auto simp: holding_def)
    then have "user_id (heap ?c ! a) = u" using reg by (simp add: registry_ok_def)
    then show False using a u assms(2) [OF i(1)] by simp
  qed
  then show ?thesis using a by simp
qed

text \<open>
  C6. In every reachable state of the interleaved system: two different calls are never
  both active for the same user; every active call holds the lock of the processor that
  the registry gives for its user; and a call for a user who has no active call becomes
  active at once, whatever locks the calls of other users hold.
\<close>

theorem mutual_exclusion:
  assumes "reachable env s"
  shows "(\<forall>i j. i < length (tasks s) \<and> j < length (tasks s)
            \<and> active (tasks s ! i) \<and> active (tasks s ! j)
            \<and> task_user (tasks s ! i) = task_user (tasks s ! j) \<longrightarrow> i = j)
    \<and> (\<forall>i. i < length (tasks s) \<and> active (tasks s ! i)
          \<longrightarrow> (\<exists>uid a. task_user (tasks s ! i) = Some uid
                 \<and> task_processor (tasks s ! i) = Some a
                 \<and> processors (client s) uid = Some a
                 \<and> a < length (heap (client s)) \<and> lock (heap (client s) ! a)))
    \<and> (\<forall>uid message. (\<forall>i. i < length (tasks s) \<longrightarrow> task_user (tasks s ! i) \<noteq> Some uid)
          \<longrightarrow> active (snd (generate_response (client s) uid message)))"
proof -
  let ?c = "client s" and ?ts = "tasks s"
  have inv: "inv env s" using assms by (rule reachable_inv)
  then have hp: "\<And>j. j < length ?ts \<Longrightarrow> holds ?c (?ts ! j)" and one: "one_holder ?ts"
    by (auto simp: inv_def)
  have ex: "i = j" if "i < length ?ts" "j < length ?ts" "active (?ts ! i)" "active (?ts ! j)"
    "task_user (?ts ! i) = task_user (?ts ! j)" for i j
  proof -
    have "task_processor (?ts ! i) = task_processor (?ts ! j)"
      using same_user_same_processor [OF hp [OF that(1)] hp [OF that(2)] that(3,5)] .
    then show ?thesis using one that by (auto simp: one_holder_def)
  qed
  have lk: "\<exists>uid a. task_user (?ts ! i) = Some uid \<and> task_processor (?ts ! i) = Some a
       \<and> processors ?c uid = Some a \<and> a < length (heap ?c) \<and> lock (heap ?c ! a)"
    if "i < length ?ts" "active (?ts ! i)" for i
    using holds_cases [OF hp [OF that(1)]] that(2) by (auto simp: holding_def)
  have fr: "active (snd (generate_response ?c uid m))"
    if "\<And>i. i < length ?ts \<Longrightarrow> task_user (?ts ! i) \<noteq> Some uid" for uid m
  proof (cases "processors ?c uid")
    case None
    then show ?thesis by (simp add: generate_response_new_user)
  next
    case (Some a)
    from free_user [OF inv that Some]
    show ?thesis by (simp add: generate_response_free [OF Some])
  qed
  show ?thesis using ex lk fr by blast
qed

text \<open>
  Users 7 and 8 both have an active call, each holding its own lock, the second message
  of user 7 was deferred, and a call of user 9 starts at once.
\<close>

theorem mutual_exclusion_witness:
  "active (tasks (run example_env two_users) ! 0)
   \<and> active (tasks (run example_env two_users) ! 1)
   \<and> task_user (tasks (run example_env two_users) ! 0) = Some 7
   \<and> task_user (tasks (run example_env two_users) ! 1) = Some 8
   \<and> tasks (run example_env two_users) ! 2 = Returned None
   \<and> lock (heap (client (run example_env two_users)) ! 0)
   \<and> lock (heap (client (run example_env two_users)) ! 1)
   \<and> active (snd (generate_response (client (run example_env two_users)) 9 ''new''))"
proof -
  let ?s = "run example_env two_users"
  have free: "\<forall>i. i < length (tasks ?s) \<longrightarrow> task_user (tasks ?s ! i) \<noteq> Some 9"
    by (simp add: two_users_state less_Suc_eq)
  from mutual_exclusion [OF run_reachable, of example_env two_users] free
  have "active (snd (generate_response (client ?s) 9 ''new''))" by blast
  then show ?thesis by (simp add: two_users_state)
qed

section \<open>The entry gate\<close>

text \<open>
  C7. A call for a user whose processor lock is held returns \<open>None\<close> at once; the client is
  as before but for the message appended at the tail of that buffer; the lock stays held.
  For the holder, whose snapshot is no longer than the buffer was, the restart check is now
  true, and a non-null phase-1 or phase-2 result makes it restart with the snapshot that
  ends with the new message.
\<close>

theorem entry_gate_deferral:
  assumes "processors c uid = Some a" and "a < length (heap c)" and "is_locked (heap c ! a)"
  shows "\<exists>c'. generate_response c uid message = (c', Returned None)
    \<and> c' = c\<lparr>heap := (heap c)[a := (heap c ! a)\<lparr>messages := messages (heap c ! a) @ [message]\<rparr>]\<rparr>
    \<and> get_pending_messages (heap c' ! a) = get_pending_messages (heap c ! a) @ [message]
    \<and> is_locked (heap c' ! a)
    \<and> (\<forall>n. n \<le> length (messages (heap c ! a)) \<longrightarrow> check_new_messages (heap c' ! a) n)
    \<and> (\<forall>B api r. length B \<le> length (messages (heap c ! a)) \<and> generate_completion r \<noteq> None
          \<longrightarrow> phase1_returns env c' uid a B api r
              = (c', AwaitHistory uid a (messages (heap c ! a) @ [message])))
    \<and> (\<forall>B tcs upd r. length B \<le> length (messages (heap c ! a)) \<and> generate_completion r \<noteq> None
          \<longrightarrow> phase2_returns c' uid a B tcs upd r
              = (c', AwaitHistory uid a (messages (heap c ! a) @ [message])))"
proof -
  let ?c' = "c\<lparr>heap := (heap c)[a := (heap c ! a)\<lparr>messages := messages (heap c ! a) @ [message]\<rparr>]\<rparr>"
  have lk: "lock (heap c ! a)" using assms(3) by (simp add: is_locked_def)
  have g: "generate_response c uid message = (?c', Returned None)"
    using generate_response_locked [OF assms(1,2) lk] .
  have m: "messages (heap ?c' ! a) = messages (heap c ! a) @ [message]" "lock (heap ?c' ! a)"
    using assms(2) lk by simp_all
  have chk: "check_new_messages (heap ?c' ! a) n" if "n \<le> length (messages (heap c ! a))" for n
    using that m by (simp add: check_new_messages_def)
  have top: "loop_top ?c' uid a = (?c', AwaitHistory uid a (messages (heap c ! a) @ [message]))"
    using m by (simp add: loop_top_def get_pending_messages_def Let_def)
  have p1: "phase1_returns env ?c' uid a B api r
      = (?c', AwaitHistory uid a (messages (heap c ! a) @ [message]))"
    if "length B \<le> length (messages (heap c ! a))" "generate_completion r \<noteq> None" for B api r
    using that chk [OF that(1)] top by (auto simp: phase1_returns_def)
  have p2: "phase2_returns ?c' uid a B tcs upd r
      = (?c', AwaitHistory uid a (messages (heap c ! a) @ [message]))"
    if "length B \<le> length (messages (heap c ! a))" "generate_completion r \<noteq> None" for B tcs upd r
    using that chk [OF that(1)] top by (auto simp: phase2_returns_def)
  show ?thesis
    using g m chk p1 p2 by (intro exI [of _ ?c']) (simp add: get_pending_messages_def is_locked_def)
qed

text \<open>The second message of Scenario A, arriving while the first call holds the lock.\<close>

theorem entry_gate_deferral_witness:
  "generate_response (client (run example_env [Call 7 ''hi''])) 7 ''how are you''
     = (client (run example_env [Call 7 ''hi'', Call 7 ''how are you'']), Returned None)
   \<and> get_pending_messages (heap (client (run example_env [Call 7 ''hi''])) ! 0) = [''hi'']
   \<and> get_pending_messages
        (heap (client (run example_env [Call 7 ''hi'', Call 7 ''how are you''])) ! 0)
       = [''hi'', ''how are you'']
   \<and> check_new_messages
        (heap (client (run example_env [Call 7 ''hi'', Call 7 ''how are you''])) ! 0) 1"
proof -
  let ?c = "client (run example_env [Call 7 ''hi''])"
  have c: "?c = \<lparr>processors = [7 \<mapsto> 0],
                 heap = [\<lparr>user_id = 7, lock = True, messages = [''hi'']\<rparr>]\<rparr>"
    by (simp add: step_defs run_defs)
  have c2: "client (run example_env [Call 7 ''hi'', Call 7 ''how are you''])
      = \<lparr>processors = [7 \<mapsto> 0],
         heap = [\<lparr>user_id = 7, lock = True, messages = [''hi'', ''how are you'']\<rparr>]\<rparr>"
    by (simp add: step_defs run_defs)
  have hyp: "processors ?c 7 = Some 0" "0 < length (heap ?c)" "is_locked (heap ?c ! 0)"
    by (simp_all add: c is_locked_def)
  from entry_gate_deferral [OF hyp, of "''how are you''" example_env]
  show ?thesis by (simp add: c c2 get_pending_messages_def check_new_messages_def)
qed

section \<open>Exceptions, and the end of a call\<close>

lemma loop_top_rank: "rank (fst (loop_top c uid a)) (snd (loop_top c uid a)) \<le> 3"
  by (simp add: loop_top_def clear_cleanup_return_def get_pending_messages_def
      check_new_messages_def Let_def)

lemma history_returns_rank:
  "rank (fst (history_returns env c uid a B r)) (snd (history_returns env c uid a B r))
     \<le> rank c (AwaitHistory uid a B) - 1"
  by (cases r) (simp_all add: history_returns_def history_body_def clear_cleanup_return_def
      Let_def)

lemma phase1_returns_rank:
  "rank (fst (phase1_returns env c uid a B api r)) (snd (phase1_returns env c uid a B api r))
     \<le> rank c (AwaitPhase1 uid a B api) - 1"
  using loop_top_rank [of c uid a]
  by (cases "generate_completion r")
     (simp_all add: phase1_returns_def bare_return_def clear_cleanup_return_def Let_def)

lemma phase2_returns_rank:
  "rank (fst (phase2_returns c uid a B tcs upd r)) (snd (phase2_returns c uid a B tcs upd r))
     \<le> rank c (AwaitPhase2 uid a B tcs upd) - 1"
  using loop_top_rank [of c uid a]
  by (cases "generate_completion r")
     (simp_all add: phase2_returns_def bare_return_def clear_cleanup_return_def Let_def)

lemma resume_rank:
  "rank (fst (resume env c t ans)) (snd (resume env c t ans)) \<le> rank c t - 1"
proof (cases t)
  case (AwaitHistory uid a B)
  then show ?thesis
    using history_returns_rank [of env c uid a B "history_answer ans"] by simp
next
  case (AwaitPhase1 uid a B api)
  then show ?thesis
    using phase1_returns_rank [of env c uid a B api "completion_answer ans"] by simp
next
  case (AwaitPhase2 uid a B tcs upd)
  then show ?thesis
    using phase2_returns_rank [of c uid a B tcs upd "completion_answer ans"] by simp
next
  case (Returned r)
  then show ?thesis by simp
next
  case (Raised e)
  then show ?thesis by simp
qed

lemma throw_in_rank: "rank (fst (throw_in c t b)) (snd (throw_in c t b)) = 0"
  by (cases t) (simp_all add: propagate_def)

lemma deliver_rank:
  "rank (fst (deliver env c t ev)) (snd (deliver env c t ev)) \<le> rank c t - 1"
  using resume_rank [of env c t] by (cases ev) (simp_all add: throw_in_rank)

lemma play_rank:
  "rank (fst (play env (c, t) evs)) (snd (play env (c, t) evs)) \<le> rank c t - length evs"
proof (induction evs arbitrary: c t)
  case Nil
  show ?case by simp
next
  case (Cons ev rest)
  obtain c' t' where r: "deliver env c t ev = (c', t')" by (cases "deliver env c t ev")
  have "rank c' t' \<le> rank c t - 1" using deliver_rank [of env c t ev] r by simp
  moreover have "rank (fst (play env (c', t') rest)) (snd (play env (c', t') rest))
     \<le> rank c' t' - length rest" by (rule Cons.IH)
  ultimately show ?case using r by simp
qed

lemma generate_response_rank:
  "rank (fst (generate_response c uid m)) (snd (generate_response c uid m)) \<le> 3"
  using loop_top_rank
  by (simp add: generate_response_def Let_def split: prod.splits)

lemma rank_bound: "rank c t \<le> 5"
  by (cases t) simp_all

lemma finished_iff: "rank c t = 0 \<longleftrightarrow> \<not> active t"
  by (cases t) simp_all

lemma loop_top_not_raised: "snd (loop_top c uid a) \<noteq> Raised e"
  by (simp add: loop_top_def clear_cleanup_return_def Let_def)

text \<open>
  An answer never makes a call raise: what \<open>resume\<close> gives is \<open>Raised\<close> only when the call
  had raised before.
\<close>

lemma resume_raised:
  assumes "snd (resume env c t ans) = Raised x"
  shows "t = Raised x"
proof (cases t)
  case (AwaitHistory uid a B)
  then show ?thesis
    using assms
    by (cases "history_answer ans")
       (simp_all add: history_returns_def history_body_def clear_cleanup_return_def Let_def)
next
  case (AwaitPhase1 uid a B api)
  then show ?thesis
    using assms loop_top_not_raised [of c uid a x]
    by (cases "generate_completion (completion_answer ans)")
       (simp_all add: phase1_returns_def bare_return_def clear_cleanup_return_def Let_def
          split: if_splits)
next
  case (AwaitPhase2 uid a B tcs upd)
  then show ?thesis
    using assms loop_top_not_raised [of c uid a x]
    by (cases "generate_completion (completion_answer ans)")
       (simp_all add: phase2_returns_def bare_return_def clear_cleanup_return_def Let_def
          split: if_splits)
next
  case (Returned r)
  then show ?thesis using assms by simp
next
  case (Raised e)
  then show ?thesis using assms by simp
qed

lemma throw_in_raised:
  assumes "snd (throw_in c t b) = Raised x"
  shows "t = Raised x \<or> x = BaseException b"
  using assms by (cases t) (auto simp: propagate_def)

lemma deliver_no_exception:
  assumes "\<And>e. t \<noteq> Raised (Exception e)"
  shows "snd (deliver env c t ev) \<noteq> Raised (Exception e')"
proof (cases ev)
  case (Answer ans)
  then show ?thesis using resume_raised [of env c t ans "Exception e'"] assms by auto
next
  case (Throw b)
  then show ?thesis using throw_in_raised [of c t b "Exception e'"] assms by auto
qed

lemma play_no_exception:
  assumes "\<And>e. t \<noteq> Raised (Exception e)"
  shows "snd (play env (c, t) evs) \<noteq> Raised (Exception e')"
  using assms
proof (induction evs arbitrary: c t)
  case Nil
  then show ?case by simp
next
  case (Cons ev rest)
  obtain c' t' where r: "deliver env c t ev = (c', t')" by (cases "deliver env c t ev")
  have "t' \<noteq> Raised (Exception e)" for e
    using deliver_no_exception [of t env c ev e] Cons.prems r by simp
  then have "snd (play env (c', t') rest) \<noteq> Raised (Exception e')" by (rule Cons.IH)
  then show ?case using r by simp
qed

lemma play_answers_not_raised:
  assumes "\<And>x. t \<noteq> Raised x" and "\<And>b. Throw b \<notin> set evs"
  shows "snd (play env (c, t) evs) \<noteq> Raised x'"
  using assms
proof (induction evs arbitrary: c t)
  case Nil
  then show ?case by simp
next
  case (Cons ev rest)
  obtain ans where ev: "ev = Answer ans" using Cons.prems(2) [of _] by (cases ev) auto
  obtain c' t' where r: "resume env c t ans = (c', t')" by (cases "resume env c t ans")
  have "t' \<noteq> Raised x" for x
    using resume_raised [of env c t ans x] Cons.prems(1) r by auto
  moreover have "Throw b \<notin> set rest" for b using Cons.prems(2) [of b] by simp
  ultimately have "snd (play env (c', t') rest) \<noteq> Raised x'" by (rule Cons.IH)
  then show ?case using r ev by simp
qed

lemma generate_response_not_raised: "snd (generate_response c uid m) \<noteq> Raised x"
  using loop_top_not_raised
  by (simp add: generate_response_def Let_def split: prod.splits)

lemma reachable_no_exception:
  "reachable env s \<Longrightarrow> i < length (tasks s) \<Longrightarrow> tasks s ! i \<noteq> Raised (Exception e)"
proof (induction arbitrary: i rule: reachable.induct)
  case start
  then show ?case by (simp add: system_init_def)
next
  case (call s uid message)
  obtain c t where g: "generate_response (client s) uid message = (c, t)"
    by (cases "generate_response (client s) uid message")
  have "t \<noteq> Raised (Exception e)"
    using generate_response_not_raised [of "client s" uid message "Exception e"] g by simp
  then show ?case
    using call g by (cases "i < length (tasks s)") (auto simp: do_call_def nth_append)
next
  case (resumed s j ans)
  obtain c t where g: "resume env (client s) (tasks s ! j) ans = (c, t)"
    by (cases "resume env (client s) (tasks s ! j) ans")
  have "t \<noteq> Raised (Exception e)"
    using resume_raised [of env "client s" "tasks s ! j" ans "Exception e"] g resumed by auto
  then show ?case
    using resumed g by (cases "i = j") (auto simp: do_resume_def)
next
  case (thrown s j b)
  obtain c t where g: "throw_in (client s) (tasks s ! j) b = (c, t)"
    by (cases "throw_in (client s) (tasks s ! j) b")
  have "t \<noteq> Raised (Exception e)"
    using throw_in_raised [of "client s" "tasks s ! j" b "Exception e"] g thrown by auto
  then show ?case
    using thrown g by (cases "i = j") (auto simp: do_throw_def)
qed

lemma throw_in_active:
  "task_processor t = Some a \<Longrightarrow> throw_in c t b = (release_lock c a, Raised (BaseException b))"
  by (cases t) (simp_all add: propagate_def)

text \<open>
  C9, as the code has it. Whatever wakes a call, an answer or an exception at an await,
  no exception of class \<open>Exception\<close> ever leaves it, alone or interleaved with other
  calls: what the history fetch, the provider, the parser, a tool or the serializer raises
  of that class ends in an \<open>except\<close> clause. A call that is only answered never raises at
  all and has returned a turn list or \<open>None\<close> after three answers. A call has finished
  after three wake-ups, and any call of a reachable state after five. An exception outside
  \<open>Exception\<close> raised at the await of an active call does leave it: the lock is released,
  the buffer and the registry stay as they were.
\<close>

theorem generate_response_catches_exceptions:
  "(\<forall>e. snd (play env (generate_response c uid message) evs) \<noteq> Raised (Exception e))
   \<and> ((\<forall>b. Throw b \<notin> set evs)
        \<longrightarrow> (\<forall>x. snd (play env (generate_response c uid message) evs) \<noteq> Raised x))
   \<and> (3 \<le> length evs \<and> (\<forall>b. Throw b \<notin> set evs)
        \<longrightarrow> (\<exists>r. snd (play env (generate_response c uid message) evs) = Returned r))
   \<and> (3 \<le> length evs
        \<longrightarrow> \<not> active (snd (play env (generate_response c uid message) evs)))
   \<and> (\<forall>s i e. reachable env s \<and> i < length (tasks s) \<longrightarrow> tasks s ! i \<noteq> Raised (Exception e))
   \<and> (\<forall>s i. reachable env s \<and> i < length (tasks s) \<and> 5 \<le> length evs
        \<longrightarrow> \<not> active (snd (play env (client s, tasks s ! i) evs)))
   \<and> (\<forall>c' t a b. task_processor t = Some a
        \<longrightarrow> throw_in c' t b = (release_lock c' a, Raised (BaseException b))
          \<and> messages (heap (release_lock c' a) ! a) = messages (heap c' ! a)
          \<and> processors (release_lock c' a) = processors c')"
proof -
  obtain c0 t0 where g: "generate_response c uid message = (c0, t0)"
    by (cases "generate_response c uid message")
  have t0: "t0 \<noteq> Raised x" for x using generate_response_not_raised [of c uid message x] g by simp
  have ne: "snd (play env (generate_response c uid message) evs) \<noteq> Raised (Exception e)" for e
    using play_no_exception [of t0 env c0 evs e] t0 g by simp
  have nr: "snd (play env (generate_response c uid message) evs) \<noteq> Raised x"
    if "\<And>b. Throw b \<notin> set evs" for x
    using play_answers_not_raised [of t0 evs env c0 x] t0 g that by simp
  have fin: "\<not> active (snd (play env (generate_response c uid message) evs))"
    if "3 \<le> length evs"
  proof -
    have "rank c0 t0 \<le> 3" using generate_response_rank [of c uid message] g by simp
    then have "rank (fst (play env (c0, t0) evs)) (snd (play env (c0, t0) evs)) = 0"
      using play_rank [of env c0 t0 evs] that by simp
    then show ?thesis using g by (simp add: finished_iff)
  qed
  have ret: "\<exists>r. snd (play env (generate_response c uid message) evs) = Returned r"
    if "3 \<le> length evs" "\<And>b. Throw b \<notin> set evs"
    using fin [OF that(1)] nr [OF that(2)]
    by (cases "snd (play env (generate_response c uid message) evs)") auto
  have sys: "tasks s ! i \<noteq> Raised (Exception e)"
    if "reachable env s" "i < length (tasks s)" for s i e
    using that by (rule reachable_no_exception)
  have live: "\<not> active (snd (play env (client s, tasks s ! i) evs))"
    if "5 \<le> length evs" for s i
  proof -
    have "rank (fst (play env (client s, tasks s ! i) evs))
            (snd (play env (client s, tasks s ! i) evs)) = 0"
      using play_rank [of env "client s" "tasks s ! i" evs]
        rank_bound [of "client s" "tasks s ! i"] that by simp
    then show ?thesis by (simp add: finished_iff)
  qed
  have thr: "throw_in c' t b = (release_lock c' a, Raised (BaseException b))
          \<and> messages (heap (release_lock c' a) ! a) = messages (heap c' ! a)
          \<and> processors (release_lock c' a) = processors c'"
    if "task_processor t = Some a" for c' t a b
  proof (cases "a < length (heap c')")
    case True
    then show ?thesis
      using throw_in_active [OF that] by (simp add: release_lock_def update_processor_def)
  next
    case False
    then have "(heap c')[a := (heap c' ! a)\<lparr>lock := False\<rparr>] = heap c'"
      by (intro list_update_beyond) simp
    then show ?thesis
      using throw_in_active [OF that] by (simp add: release_lock_def update_processor_def)
  qed
  show ?thesis using ne nr ret fin sys live thr by blast
qed

text \<open>
  The history fetch raises; the provider raises; the tool raises; the call is cancelled
  while phase 1 is awaited. In the first three runs the call returns, in the last it has
  finished.
\<close>

theorem generate_response_catches_exceptions_witness:
  "(\<exists>r. snd (play example_env (generate_response LLMClient_init 7 ''hi'')
             [Answer history_fails, Answer says_hello, Answer says_hello]) = Returned r)
   \<and> snd (play example_env (generate_response LLMClient_init 7 ''hi'')
             [Answer history_fails, Answer says_hello, Answer says_hello]) = Returned None
   \<and> snd (play example_env (generate_response LLMClient_init 7 ''hi'')
             [Answer history_hi, Answer provider_fails, Answer says_hello]) = Returned None
   \<and> (\<exists>out. snd (play example_env (generate_response LLMClient_init 7 ''hi'')
             [Answer history_hi, Answer asks_boom, Answer says_hello]) = Returned (Some out))
   \<and> \<not> active (snd (play example_env (generate_response LLMClient_init 7 ''hi'')
             [Answer history_hi, Throw CancelledError, Answer says_hello]))
   \<and> tasks (run example_env two_users) ! 0 \<noteq> Raised (Exception IndexError)"
proof -
  let ?g = "generate_response LLMClient_init 7 ''hi''"
  have n: "\<forall>b. Throw b \<notin> set [Answer history_fails, Answer says_hello, Answer says_hello]"
    "(3::nat) \<le> length [Answer history_fails, Answer says_hello, Answer says_hello]"
    "(3::nat) \<le> length [Answer history_hi, Throw CancelledError, Answer says_hello]"
    by simp_all
  have r: "reachable example_env (run example_env two_users)" by (rule run_reachable)
  have l: "0 < length (tasks (run example_env two_users))" by (simp add: two_users_state)
  from generate_response_catches_exceptions
    [of example_env LLMClient_init 7 "''hi''"
       "[Answer history_fails, Answer says_hello, Answer says_hello]"] n(1,2) r l
  have a: "\<exists>r. snd (play example_env ?g
             [Answer history_fails, Answer says_hello, Answer says_hello]) = Returned r"
    and f: "tasks (run example_env two_users) ! 0 \<noteq> Raised (Exception IndexError)"
    by blast+
  from generate_response_catches_exceptions
    [of example_env LLMClient_init 7 "''hi''"
       "[Answer history_hi, Throw CancelledError, Answer says_hello]"] n(3)
  have e: "\<not> active (snd (play example_env ?g
             [Answer history_hi, Throw CancelledError, Answer says_hello]))"
    by blast
  have b: "snd (play example_env ?g
             [Answer history_fails, Answer says_hello, Answer says_hello]) = Returned None"
    by (simp add: run_defs history_fails_def)
  have c: "snd (play example_env ?g
             [Answer history_hi, Answer provider_fails, Answer says_hello]) = Returned None"
    by (simp add: run_defs provider_fails_def)
  have d: "\<exists>out. snd (play example_env ?g
             [Answer history_hi, Answer asks_boom, Answer says_hello]) = Returned (Some out)"
    by (simp add: run_defs asks_boom_def says_hello_def example_env_def)
  show ?thesis
    by (rule conjI [OF a conjI [OF b conjI [OF c conjI [OF d conjI [OF e f]]]]])
qed

text \<open>
  C9 as the specification states it fails: \<open>CancelledError\<close> raised at the history fetch
  or at the phase-1 await leaves \<open>generate_response\<close>, with the lock released and the
  message still in the buffer.
\<close>

theorem cancellation_leaves_generate_response:
  "snd (play example_env (generate_response LLMClient_init 7 ''hi'') [Throw CancelledError])
     = Raised (BaseException CancelledError)
   \<and> snd (play example_env (generate_response LLMClient_init 7 ''hi'')
            [Answer history_hi, Throw CancelledError])
     = Raised (BaseException CancelledError)
   \<and> heap (fst (play example_env (generate_response LLMClient_init 7 ''hi'')
            [Answer history_hi, Throw CancelledError]))
     = [\<lparr>user_id = 7, lock = False, messages = [''hi'']\<rparr>]
   \<and> tasks (run example_env [Call 7 ''hi'', Cancel 0 CancelledError])
     = [Raised (BaseException CancelledError)]"
  by (simp add: run_defs propagate_def step_defs do_throw_def)

section \<open>The restart check and loss-freedom\<close>











end
